theory Spec2Isabelle
  imports Complex_Main "HOL-Library.Log_Nat"
begin

section \<open>Arrays\<close>

text \<open>
  A numpy array or torch tensor is its shape together with its elements in row-major
  (C) order. Every array the library hands out satisfies \<open>well_shaped\<close>: it has as
  many elements as its shape says. The flat list is also what \<open>flatten()\<close>
  returns.
\<close>

record 'a ndarray =
  shape :: "nat list"
  data :: "'a list"

definition well_shaped :: "'a ndarray \<Rightarrow> bool" where
  "well_shaped a \<longleftrightarrow> length (data a) = prod_list (shape a)"

definition ndim :: "'a ndarray \<Rightarrow> nat" where
  "ndim a = length (shape a)"

text \<open>
  The exceptions of numpy, torch and Python that the module can raise.
  \<open>EmptyImageError\<close> stands for what happens when \<open>cv2.threshold\<close> is given an
  image without elements: it raises \<open>cv2.error\<close>, or it returns \<open>None\<close> and the
  \<open>x.ndim\<close> that follows is an AttributeError.
\<close>

datatype error = IndexError | TypeError | ValueError | RuntimeError | EmptyImageError

text \<open>\<open>a[i, j, k, l]\<close> of a 4-dimensional array.\<close>

definition item4 :: "'a ndarray \<Rightarrow> nat \<Rightarrow> nat \<Rightarrow> nat \<Rightarrow> nat \<Rightarrow> 'a" where
  "item4 a i j k l =
     data a ! (((i * (shape a ! 1) + j) * (shape a ! 2) + k) * (shape a ! 3) + l)"

text \<open>The row-major element list of a 4-dimensional array given by an index function.\<close>

definition tabulate4 ::
  "nat \<Rightarrow> nat \<Rightarrow> nat \<Rightarrow> nat \<Rightarrow> (nat \<Rightarrow> nat \<Rightarrow> nat \<Rightarrow> nat \<Rightarrow> 'a) \<Rightarrow> 'a list" where
  "tabulate4 d0 d1 d2 d3 f =
     concat (map (\<lambda>i. concat (map (\<lambda>j. concat (map (\<lambda>k. map (f i j k) [0..<d3])
       [0..<d2])) [0..<d1])) [0..<d0])"

text \<open>
  \<open>xarr.transpose(0, 2, 3, 1)\<close>: the axes (batch, channel, height, width) become
  (batch, height, width, channel). numpy raises ValueError when the array does not
  have four axes.
\<close>

definition transpose_0231 :: "'a ndarray \<Rightarrow> error + 'a ndarray" where
  "transpose_0231 a =
     (case shape a of
        [n, c, h, w] \<Rightarrow>
          Inr \<lparr>shape = [n, h, w, c],
               data = tabulate4 n h w c (\<lambda>i y x k. item4 a i k y x)\<rparr>
      | _ \<Rightarrow> Inl ValueError)"

text \<open>
  Iterating over an array (\<open>for x in arr\<close>, \<open>enumerate(arr)\<close>, \<open>zip(a, b)\<close>) yields
  its sub-arrays along the first axis. The callers below check that there is a first
  axis.
\<close>

definition subarrays :: "'a ndarray \<Rightarrow> 'a ndarray list" where
  "subarrays a =
     (let sz = prod_list (tl (shape a))
      in map (\<lambda>i. \<lparr>shape = tl (shape a), data = take sz (drop (i * sz) (data a))\<rparr>)
           [0..<hd (shape a)])"

section \<open>Single precision\<close>

text \<open>
  The predictions, the histogram, the Jaccard vector and its mean are float32. A
  float32 value is a real number with a 24-bit significand, an infinity or NaN; every
  operation rounds the exact result to the nearest such number, ties to even
  (\<open>round32\<close>). Signed zeros and overflow to infinity are left out: the quantities
  below are scores, counts and their quotients.
\<close>

datatype float32 = Finite real | Infinity bool | NaN

definition round_even :: "real \<Rightarrow> int" where
  "round_even x =
     (let f = \<lfloor>x\<rfloor>; r = x - of_int f
      in if r < 1 / 2 then f else if 1 / 2 < r then f + 1 else if even f then f else f + 1)"

text \<open>For \<open>x > 0\<close>, the \<open>e\<close> with \<open>2 ^ e \<le> x < 2 ^ (e + 1)\<close>.\<close>

definition exponent :: "real \<Rightarrow> int" where
  "exponent x = (if 1 \<le> x then bitlen \<lfloor>x\<rfloor> - 1 else - bitlen (\<lceil>1 / x\<rceil> - 1))"

definition round32 :: "real \<Rightarrow> real" where
  "round32 x =
     (if x = 0 then 0
      else
        let e = max (exponent \<bar>x\<bar>) (- 126); ulp = 2 powi (e - 23)
        in sgn x * (of_int (round_even (\<bar>x\<bar> / ulp)) * ulp))"

text \<open>The constant \<open>1e-10\<close> as a float32.\<close>

definition eps32 :: real where
  "eps32 = round32 (1 / 10 ^ 10)"

text \<open>\<open>.float()\<close> of an int64 value.\<close>

definition to_float32 :: "int \<Rightarrow> real" where
  "to_float32 k = round32 (real_of_int k)"

text \<open>Division of two finite numbers; \<open>0 / 0\<close> is NaN.\<close>

definition f32_div :: "real \<Rightarrow> real \<Rightarrow> float32" where
  "f32_div a b =
     (if b = 0 then (if a = 0 then NaN else Infinity (a < 0)) else Finite (round32 (a / b)))"

fun f32_add :: "float32 \<Rightarrow> float32 \<Rightarrow> float32" where
  "f32_add (Finite a) (Finite b) = Finite (round32 (a + b))"
| "f32_add NaN y = NaN"
| "f32_add x NaN = NaN"
| "f32_add (Infinity s) (Infinity s') = (if s = s' then Infinity s else NaN)"
| "f32_add (Infinity s) (Finite b) = Infinity s"
| "f32_add (Finite a) (Infinity s) = Infinity s"

section \<open>Thresholding\<close>

text \<open>
  \<open>cv2.threshold(src, thresh, maxval, cv2.THRESH_BINARY)\<close> on a float32 image: OpenCV
  converts \<open>thresh\<close> and \<open>maxval\<close> to float32; every element greater than the
  converted level becomes \<open>maxval\<close>, every other element 0, each channel on its own.
  OpenCV hands an image with a single channel back without its channel axis. For an
  image without elements there is no result (\<open>EmptyImageError\<close>).
\<close>

definition cv2_threshold :: "real ndarray \<Rightarrow> real \<Rightarrow> real \<Rightarrow> error + real ndarray" where
  "cv2_threshold src thresh maxval =
     (if prod_list (shape src) = 0 then Inl EmptyImageError
      else
        Inr \<lparr>shape = (case shape src of
                         [h, w, c] \<Rightarrow> if c = 1 then [h, w] else [h, w, c]
                       | s \<Rightarrow> s),
             data = map (\<lambda>v. if round32 thresh < v then round32 maxval else 0) (data src)\<rparr>)"

text \<open>\<open>x[..., None]\<close>: a new last axis of length one.\<close>

definition expand_last :: "'a ndarray \<Rightarrow> 'a ndarray" where
  "expand_last x = \<lparr>shape = shape x @ [1], data = data x\<rparr>"

text \<open>
  The loop of \<open>IoU.threshold_\<close> over the images. It assigns \<open>xarr_[i]\<close> for every
  \<open>i\<close> in turn, so the result holds the thresholded images one after the other; the
  first image that cannot be thresholded ends the loop with its error.
\<close>

fun threshold_loop :: "real ndarray list \<Rightarrow> real \<Rightarrow> error + real list" where
  "threshold_loop [] thresh = Inr []"
| "threshold_loop (x # xs) thresh =
     (case cv2_threshold x thresh 1 of
        Inl e \<Rightarrow> Inl e
      | Inr x1 \<Rightarrow>
          (let x2 = (if ndim x1 = 2 then expand_last x1 else x1)
           in case threshold_loop xs thresh of
                Inl e \<Rightarrow> Inl e
              | Inr rest \<Rightarrow> Inr (data x2 @ rest)))"

text \<open>\<open>IoU.threshold_\<close>, here \<open>IoU_threshold\<close>: the result has the transposed shape.\<close>

definition IoU_threshold :: "real ndarray \<Rightarrow> real \<Rightarrow> error + real ndarray" where
  "IoU_threshold xarr thresh =
     (case transpose_0231 xarr of
        Inl e \<Rightarrow> Inl e
      | Inr xt \<Rightarrow>
          (case threshold_loop (subarrays xt) thresh of
             Inl e \<Rightarrow> Inl e
           | Inr xarr_data \<Rightarrow> Inr \<lparr>shape = shape xt, data = xarr_data\<rparr>))"

section \<open>Label normalisation\<close>

text \<open>
  The inner \<open>squeeze_channels_\<close> of \<open>squeeze_channels\<close>, for one label of shape
  (height, width, channel): the accumulator \<open>label_\<close> starts as zeros of shape
  (1, height, width) and the loop adds channel \<open>c\<close> times \<open>c\<close> for every channel in turn. A label with
  fewer axes has no \<open>ilabel[:, :, c]\<close> (IndexError); with more axes the sum does not
  broadcast into \<open>label_\<close> (ValueError) apart from a few degenerate shapes, which are
  outside this model: the labels here are 4-dimensional, as the caller's are.
\<close>

definition squeeze_channels_inner :: "real ndarray \<Rightarrow> error + real ndarray" where
  "squeeze_channels_inner ilabel =
     (case shape ilabel of
        [h, w, c] \<Rightarrow>
          Inr \<lparr>shape = [1, h, w],
               data = foldl (\<lambda>acc ch.
                               map2 (+) acc
                                 (map (\<lambda>p. data ilabel ! (p * c + ch) * real ch) [0..<h * w]))
                        (replicate (h * w) 0) [0..<c]\<rparr>
      | [] \<Rightarrow> Inl IndexError
      | [h] \<Rightarrow> Inl IndexError
      | [h, w] \<Rightarrow> Inl IndexError
      | _ \<Rightarrow> Inl ValueError)"

text \<open>\<open>image[None, ...]\<close>: a new first axis of length one.\<close>

definition expand_first :: "'a ndarray \<Rightarrow> 'a ndarray" where
  "expand_first x = \<lparr>shape = 1 # shape x, data = data x\<rparr>"

text \<open>
  \<open>np.concatenate\<close> along the first axis. numpy raises ValueError for an empty list
  ("need at least one array to concatenate"), for a zero-dimensional array and for
  arrays whose other axes differ.
\<close>

definition np_concatenate :: "'a ndarray list \<Rightarrow> error + 'a ndarray" where
  "np_concatenate arrs =
     (case arrs of
        [] \<Rightarrow> Inl ValueError
      | a # as \<Rightarrow>
          if list_ex (\<lambda>b. shape b = []) arrs \<or> list_ex (\<lambda>b. tl (shape b) \<noteq> tl (shape a)) as
          then Inl ValueError
          else Inr \<lparr>shape = sum_list (map (\<lambda>b. hd (shape b)) arrs) # tl (shape a),
                    data = concat (map data arrs)\<rparr>)"

text \<open>
  The loop of \<open>squeeze_channels\<close> over \<open>zip(labels, images)\<close>, with the two lists it
  appends to. \<open>c\<close> is \<open>labels.shape[-1]\<close>; \<open>len(np.unique(label))\<close> is the number
  of distinct values of the squeezed label.
\<close>

fun squeeze_loop ::
  "bool \<Rightarrow> nat \<Rightarrow> (real ndarray \<times> 'a ndarray) list \<Rightarrow> 'a ndarray list \<Rightarrow> real ndarray list
     \<Rightarrow> error + ('a ndarray list \<times> real ndarray list)" where
  "squeeze_loop clip c [] images_valid labels_valid = Inr (images_valid, labels_valid)"
| "squeeze_loop clip c ((label, img) # rest) images_valid labels_valid =
     (case squeeze_channels_inner label of
        Inl e \<Rightarrow> Inl e
      | Inr label1 \<Rightarrow>
          if clip then
            squeeze_loop clip c rest
              (images_valid @ [expand_first img])
              (labels_valid @
                 [label1\<lparr>data := map (\<lambda>v. if real c - 1 < v then 0 else v) (data label1)\<rparr>])
          else if length (remdups (data label1)) = c then
            squeeze_loop clip c rest
              (images_valid @ [expand_first img]) (labels_valid @ [label1])
          else squeeze_loop clip c rest images_valid labels_valid)"

text \<open>
  \<open>squeeze_channels\<close>. \<open>labels.shape[-1]\<close> of a zero-dimensional array is an
  IndexError, and \<open>zip\<close> over a zero-dimensional array a TypeError.
\<close>

definition squeeze_channels ::
  "'a ndarray \<Rightarrow> real ndarray \<Rightarrow> bool \<Rightarrow> error + ('a ndarray \<times> real ndarray)" where
  "squeeze_channels images labels clip =
     (if shape labels = [] then Inl IndexError
      else if last (shape labels) = 1 then Inr (images, labels)
      else if shape images = [] then Inl TypeError
      else
        case squeeze_loop clip (last (shape labels))
               (zip (subarrays labels) (subarrays images)) [] [] of
          Inl e \<Rightarrow> Inl e
        | Inr (images_valid, labels_valid) \<Rightarrow>
            (case np_concatenate images_valid of
               Inl e \<Rightarrow> Inl e
             | Inr imgs \<Rightarrow>
                 (case np_concatenate labels_valid of
                    Inl e \<Rightarrow> Inl e
                  | Inr lbls \<Rightarrow> Inr (imgs, lbls))))"

text \<open>
  The index map in closed form, as the weighted sum over the channels of each pixel:
  what the loop of \<open>squeeze_channels_inner\<close> computes for a label with \<open>c\<close>
  channels and \<open>m\<close> pixels.
\<close>

definition index_map :: "nat \<Rightarrow> nat \<Rightarrow> real list \<Rightarrow> real list" where
  "index_map m c xs = map (\<lambda>p. \<Sum>ch\<leftarrow>[0..<c]. xs ! (p * c + ch) * real ch) [0..<m]"

section \<open>Confusion histogram\<close>

text \<open>
  \<open>torch.bincount(input, minlength)\<close>: the number of occurrences of every value from
  0 to the largest one, in at least \<open>minlength\<close> bins; a negative value is a
  RuntimeError.
\<close>

definition bincount :: "int list \<Rightarrow> nat \<Rightarrow> error + int list" where
  "bincount xs minlength =
     (if list_ex (\<lambda>x. x < 0) xs then Inl RuntimeError
      else Inr (map (\<lambda>k. int (count_list xs (int k)))
                  [0..<max minlength (nat (fold max (map (\<lambda>x. x + 1) xs) 0))]))"

text \<open>\<open>reshape(r, c)\<close> of a vector: a RuntimeError unless it has \<open>r * c\<close> entries.\<close>

definition reshape2 :: "'a list \<Rightarrow> nat \<Rightarrow> nat \<Rightarrow> error + 'a list list" where
  "reshape2 xs r c =
     (if length xs \<noteq> r * c then Inl RuntimeError
      else Inr (map (\<lambda>i. take c (drop (i * c) xs)) [0..<r]))"

text \<open>
  \<open>IoU.compute_hist\<close> on two flattened tensors, up to the reshape: the int64 matrix of
  counts. \<open>pred[mask]\<close> is an IndexError when the mask, which has the length of
  \<open>true\<close>, does not have the length of \<open>pred\<close>.
\<close>

definition bincount_hist :: "nat \<Rightarrow> int list \<Rightarrow> int list \<Rightarrow> error + int list list" where
  "bincount_hist nb_classes true pred =
     (if length pred \<noteq> length true then Inl IndexError
      else
        case bincount
               (map (\<lambda>(t, p). int nb_classes * t + p)
                  (filter (\<lambda>(t, p). 0 \<le> t \<and> t < int nb_classes) (zip true pred)))
               (nb_classes ^ 2) of
          Inl e \<Rightarrow> Inl e
        | Inr hist \<Rightarrow> reshape2 hist nb_classes nb_classes)"

text \<open>\<open>IoU.compute_hist\<close>: the counts converted by \<open>.float()\<close>.\<close>

definition compute_hist :: "nat \<Rightarrow> int list \<Rightarrow> int list \<Rightarrow> error + real list list" where
  "compute_hist nb_classes true pred =
     (case bincount_hist nb_classes true pred of
        Inl e \<Rightarrow> Inl e
      | Inr hist \<Rightarrow> Inr (map (map to_float32) hist))"

text \<open>
  The loop of \<open>IoU.evaluate\<close>: \<open>hist += self.compute_hist(t.flatten(), p.flatten())\<close>,
  an addition of float32 matrices.
\<close>

fun accumulate_hist ::
  "nat \<Rightarrow> (int ndarray \<times> int ndarray) list \<Rightarrow> real list list \<Rightarrow> error + real list list" where
  "accumulate_hist nb [] hist = Inr hist"
| "accumulate_hist nb ((t, p) # rest) hist =
     (case compute_hist nb (data t) (data p) of
        Inl e \<Rightarrow> Inl e
      | Inr h \<Rightarrow> accumulate_hist nb rest (map2 (map2 (\<lambda>a b. round32 (a + b))) hist h))"

section \<open>The Jaccard vector\<close>

text \<open>
  \<open>torch.sum\<close> and \<open>torch.mean\<close> of a float32 vector. torch is free in the order of
  the additions; they are made from left to right here. The order makes no difference
  to a sum of two entries, nor to a sum whose partial sums are all exact.
\<close>

definition torch_sum :: "real list \<Rightarrow> real" where
  "torch_sum xs = foldl (\<lambda>s x. round32 (s + x)) 0 xs"

definition torch_mean :: "float32 list \<Rightarrow> float32" where
  "torch_mean xs =
     (if xs = [] then NaN
      else
        case foldl f32_add (Finite 0) xs of
          Finite s \<Rightarrow> f32_div s (real (length xs))
        | Infinity sg \<Rightarrow> Infinity sg
        | NaN \<Rightarrow> NaN)"

text \<open>
  The reduction of \<open>IoU.evaluate\<close>: the diagonal, the row sums \<open>A\<close>, the column sums
  \<open>B\<close>, and \<open>A_inter_B / (A + B - A_inter_B + 1e-10)\<close> for every class, each
  operation in float32.
\<close>

definition jaccard :: "real list list \<Rightarrow> float32 list" where
  "jaccard hist =
     (let n = length hist;
          A_inter_B = map (\<lambda>i. hist ! i ! i) [0..<n];
          A = map torch_sum hist;
          B = map (\<lambda>j. torch_sum (map (\<lambda>row. row ! j) hist)) [0..<n]
      in map (\<lambda>(d, a, b). f32_div d (round32 (round32 (round32 (a + b) - d) + eps32)))
           (zip A_inter_B (zip A B)))"

section \<open>The evaluator\<close>

text \<open>\<open>.long()\<close>: conversion to an integer, towards zero.\<close>

definition long :: "real \<Rightarrow> int" where
  "long v = (if 0 \<le> v then \<lfloor>v\<rfloor> else \<lceil>v\<rceil>)"

definition map_data :: "('a \<Rightarrow> 'b) \<Rightarrow> 'a ndarray \<Rightarrow> 'b ndarray" where
  "map_data f a = \<lparr>shape = shape a, data = map f (data a)\<rparr>"

record IoU =
  thresh :: real
  nb_classes :: nat
  pred :: "int ndarray"
  true :: "int ndarray"

text \<open>
  \<open>IoU.__init__\<close>. \<open>F.softmax(pred, dim=1)\<close> and \<open>torch.sigmoid\<close> belong to torch
  and are parameters here. Moving tensors between devices changes no value.
\<close>

definition IoU_init ::
  "(real ndarray \<Rightarrow> real ndarray) \<Rightarrow> (real ndarray \<Rightarrow> real ndarray) \<Rightarrow>
     real ndarray \<Rightarrow> real ndarray \<Rightarrow> bool \<Rightarrow> real \<Rightarrow> error + IoU" where
  "IoU_init F_softmax torch_sigmoid true0 pred0 activation thresh0 =
     (if ndim pred0 < 2 then Inl IndexError
      else
        let nb = shape pred0 ! 1;
            pred1 = (if activation
                     then (if 1 < nb then F_softmax pred0 else torch_sigmoid pred0)
                     else pred0);
            nb1 = (if nb = 1 then nb + 1 else nb)
        in case IoU_threshold pred1 thresh0 of
             Inl e \<Rightarrow> Inl e
           | Inr pred2 \<Rightarrow>
               (case (if ndim pred2 = 4 \<and> 1 < last (shape pred2)
                      then squeeze_channels true0 pred2 True
                      else Inr (true0, pred2)) of
                  Inl e \<Rightarrow> Inl e
                | Inr (true1, pred3) \<Rightarrow>
                    Inr \<lparr>thresh = thresh0, nb_classes = nb1,
                         pred = map_data long pred3, true = map_data long true1\<rparr>))"

text \<open>
  \<open>IoU.evaluate\<close> up to the end of its loop: the accumulated histogram, which
  starts as \<open>torch.zeros\<close>. Iterating over a zero-dimensional tensor is a TypeError.
\<close>

definition evaluate_hist :: "IoU \<Rightarrow> error + real list list" where
  "evaluate_hist self =
     (if shape (true self) = [] \<or> shape (pred self) = [] then Inl TypeError
      else accumulate_hist (nb_classes self)
             (zip (subarrays (true self)) (subarrays (pred self)))
             (replicate (nb_classes self) (replicate (nb_classes self) 0)))"

text \<open>
  \<open>IoU.evaluate\<close>: \<open>jcd[jcd == jcd]\<close> keeps the entries that are equal to
  themselves, which every float32 but NaN is.
\<close>

definition evaluate :: "IoU \<Rightarrow> error + float32" where
  "evaluate self =
     (case evaluate_hist self of
        Inl e \<Rightarrow> Inl e
      | Inr hist \<Rightarrow> Inr (torch_mean (filter (\<lambda>v. v \<noteq> NaN) (jaccard hist))))"

section \<open>Notions used in the statements\<close>

text \<open>The sum of all entries of a histogram, as a number (no rounding).\<close>

definition hist_total :: "'a::monoid_add list list \<Rightarrow> 'a" where
  "hist_total hist = sum_list (map sum_list hist)"

text \<open>A matrix with \<open>n\<close> rows of \<open>n\<close> entries.\<close>

definition is_square :: "nat \<Rightarrow> 'a list list \<Rightarrow> bool" where
  "is_square n m \<longleftrightarrow> length m = n \<and> list_all (\<lambda>row. length row = n) m"

text \<open>The number of positions whose true value is a class index.\<close>

definition valid_positions :: "nat \<Rightarrow> int list \<Rightarrow> nat" where
  "valid_positions nb ts = length (filter (\<lambda>t. 0 \<le> t \<and> t < int nb) ts)"

section \<open>Facts about row-major lists\<close>

lemma length_concat_map_upt:
  "(\<And>i. i < n \<Longrightarrow> length (f i) = m) \<Longrightarrow> length (concat (map f [0..<n])) = n * m"
  by (induction n) simp_all

lemma nth_concat_map_upt:
  "(\<And>i. i < n \<Longrightarrow> length (f i) = m) \<Longrightarrow> i < n \<Longrightarrow> j < m \<Longrightarrow>
     concat (map f [0..<n]) ! (i * m + j) = f i ! j"
proof (induction n)
  case 0
  then show ?case by simp
next
  case (Suc n)
  have len: "length (concat (map f [0..<n])) = n * m"
    using Suc.prems(1) by (simp add: length_concat_map_upt)
  show ?case
  proof (cases "i < n")
    case True
    have "i * m + j < Suc i * m" using Suc.prems(3) by simp
    also have "\<dots> \<le> n * m" using True by (simp only: mult_le_mono1 Suc_leI)
    finally have "i * m + j < n * m" .
    then show ?thesis
      using Suc.IH [OF _ True Suc.prems(3)] Suc.prems(1) len by (simp add: nth_append)
  next
    case False
    then have "i = n" using Suc.prems(2) by simp
    then show ?thesis using len by (simp add: nth_append)
  qed
qed

lemma length_tabulate4: "length (tabulate4 d0 d1 d2 d3 f) = d0 * d1 * d2 * d3"
  by (simp add: tabulate4_def length_concat_map_upt [where m = "d1 * d2 * d3"]
      length_concat_map_upt [where m = "d2 * d3"] length_concat_map_upt [where m = d3])

lemma nth_tabulate4:
  assumes "i < d0" "j < d1" "k < d2" "l < d3"
  shows "tabulate4 d0 d1 d2 d3 f ! (((i * d1 + j) * d2 + k) * d3 + l) = f i j k l"
proof -
  let ?g3 = "\<lambda>i j k. map (f i j k) [0..<d3]"
  let ?g2 = "\<lambda>i j. concat (map (?g3 i j) [0..<d2])"
  let ?g1 = "\<lambda>i. concat (map (?g2 i) [0..<d1])"
  have l2: "length (?g2 i' j') = d2 * d3" for i' j'
    by (simp add: length_concat_map_upt [where m = d3])
  have l1: "length (?g1 i') = d1 * (d2 * d3)" for i'
    by (simp add: length_concat_map_upt [where m = "d2 * d3"] l2)
  have b2: "k * d3 + l < d2 * d3"
  proof -
    have "k * d3 + l < Suc k * d3" using assms(4) by simp
    also have "\<dots> \<le> d2 * d3" using assms(3) by (simp only: mult_le_mono1 Suc_leI)
    finally show ?thesis .
  qed
  have b1: "j * (d2 * d3) + (k * d3 + l) < d1 * (d2 * d3)"
  proof -
    have "j * (d2 * d3) + (k * d3 + l) < Suc j * (d2 * d3)" using b2 by simp
    also have "\<dots> \<le> d1 * (d2 * d3)" using assms(2) by (simp only: mult_le_mono1 Suc_leI)
    finally show ?thesis .
  qed
  have idx: "((i * d1 + j) * d2 + k) * d3 + l
               = i * (d1 * (d2 * d3)) + (j * (d2 * d3) + (k * d3 + l))"
    by (simp add: algebra_simps)
  have "tabulate4 d0 d1 d2 d3 f ! (((i * d1 + j) * d2 + k) * d3 + l)
          = ?g1 i ! (j * (d2 * d3) + (k * d3 + l))"
    unfolding tabulate4_def idx
    by (rule nth_concat_map_upt [OF l1 assms(1) b1])
  also have "\<dots> = ?g2 i j ! (k * d3 + l)"
    by (rule nth_concat_map_upt [OF l2 assms(2) b2])
  also have "\<dots> = ?g3 i j k ! l"
    by (rule nth_concat_map_upt [OF _ assms(3) assms(4)]) simp
  also have "\<dots> = f i j k l"
    using assms(4) by simp
  finally show ?thesis .
qed

lemma concat_chunks:
  "length xs = n * sz \<Longrightarrow> concat (map (\<lambda>i. take sz (drop (i * sz) xs)) [0..<n]) = xs"
proof (induction n arbitrary: xs)
  case 0
  then show ?case by simp
next
  case (Suc n)
  have "length (take (n * sz) xs) = n * sz" using Suc.prems by simp
  from Suc.IH [OF this]
  have "concat (map (\<lambda>i. take sz (drop (i * sz) (take (n * sz) xs))) [0..<n])
          = take (n * sz) xs" .
  moreover have "take sz (drop (i * sz) (take (n * sz) xs)) = take sz (drop (i * sz) xs)"
    if "i < n" for i
  proof -
    have "Suc i * sz \<le> n * sz" using that by (simp only: mult_le_mono1 Suc_leI)
    then have "sz \<le> n * sz - i * sz" by simp
    then show ?thesis by (simp add: drop_take min_absorb1)
  qed
  then have "map (\<lambda>i. take sz (drop (i * sz) (take (n * sz) xs))) [0..<n]
               = map (\<lambda>i. take sz (drop (i * sz) xs)) [0..<n]"
    by (intro map_cong) simp_all
  ultimately have "concat (map (\<lambda>i. take sz (drop (i * sz) xs)) [0..<n]) = take (n * sz) xs"
    by simp
  moreover have "take sz (drop (n * sz) xs) = drop (n * sz) xs"
    using Suc.prems by simp
  ultimately show ?case by simp
qed

lemma data_subarrays:
  "shape a = d # ds \<Longrightarrow> well_shaped a \<Longrightarrow> concat (map data (subarrays a)) = data a"
  by (simp add: subarrays_def well_shaped_def Let_def comp_def concat_chunks)

lemma index_bound4:
  assumes "i < d0" "j < d1" "k < d2" "l < (d3::nat)"
  shows "((i * d1 + j) * d2 + k) * d3 + l < d0 * d1 * d2 * d3"
proof -
  have "i * d1 + j < Suc i * d1" using assms(2) by simp
  also have "\<dots> \<le> d0 * d1" using assms(1) by (simp only: mult_le_mono1 Suc_leI)
  finally have "(i * d1 + j) * d2 + k < Suc (i * d1 + j) * d2" "Suc (i * d1 + j) \<le> d0 * d1"
    using assms(3) by simp_all
  then have "(i * d1 + j) * d2 + k < d0 * d1 * d2"
    by (meson less_le_trans mult_le_mono1)
  then have "Suc ((i * d1 + j) * d2 + k) \<le> d0 * d1 * d2" by simp
  then have "Suc ((i * d1 + j) * d2 + k) * d3 \<le> d0 * d1 * d2 * d3"
    by (rule mult_le_mono1)
  moreover have "((i * d1 + j) * d2 + k) * d3 + l < Suc ((i * d1 + j) * d2 + k) * d3"
    using assms(4) by simp
  ultimately show ?thesis by simp
qed

lemma set_tabulate4:
  "set (tabulate4 d0 d1 d2 d3 f) \<subseteq> {f i j k l | i j k l. i < d0 \<and> j < d1 \<and> k < d2 \<and> l < d3}"
  by (fastforce simp: tabulate4_def)

lemma subarrays_props:
  assumes "shape a = n # ds"
  shows "length (subarrays a) = n" and "\<forall>x \<in> set (subarrays a). shape x = ds"
  using assms by (auto simp: subarrays_def Let_def)

section \<open>Rounding to single precision\<close>

lemma round_even_near:
  assumes "0 \<le> r" "r < 1 / 2"
  shows "round_even (of_int m + r) = m"
proof -
  have f: "\<lfloor>of_int m + r\<rfloor> = m" using assms by (intro floor_unique) simp_all
  show ?thesis unfolding round_even_def Let_def f using assms(2) by simp
qed

lemma round_even_ge_floor: "\<lfloor>x\<rfloor> \<le> round_even x"
  by (simp add: round_even_def Let_def)

lemma exponent_ge_1:
  assumes "1 \<le> x"
  shows "0 \<le> exponent x" and "2 powi (exponent x) \<le> x"
proof -
  have fl: "1 \<le> \<lfloor>x\<rfloor>" using assms by simp
  then have pos: "0 < \<lfloor>x\<rfloor>" by simp
  have e: "exponent x = bitlen \<lfloor>x\<rfloor> - 1" using assms by (simp add: exponent_def)
  have "1 \<le> bitlen \<lfloor>x\<rfloor>" using fl by (simp add: bitlen_ge_iff_power)
  then show nn: "0 \<le> exponent x" unfolding e by simp
  have "(2::int) ^ nat (bitlen \<lfloor>x\<rfloor> - 1) \<le> \<lfloor>x\<rfloor>" using bitlen_bounds [OF pos] by simp
  then have "of_int ((2::int) ^ nat (exponent x)) \<le> (of_int \<lfloor>x\<rfloor> :: real)"
    unfolding e by (simp only: of_int_le_iff)
  also have "\<dots> \<le> x" by simp
  finally have "(2::real) ^ nat (exponent x) \<le> x" by simp
  then show "2 powi (exponent x) \<le> x" using nn by (simp add: power_int_nonneg_exp)
qed

lemma round32_absorb:
  fixes u :: int
  assumes "1 \<le> u" "u < 2 ^ 24" "0 \<le> e" "e < 1 / 2 ^ 24"
  shows "round32 (of_int u + e) = of_int u"
proof -
  let ?x = "of_int u + e :: real"
  have e1: "e < 1"
  proof -
    have "(1::real) / 2 ^ 24 \<le> 1" by simp
    then show ?thesis using assms(4) by linarith
  qed
  have x1: "1 \<le> ?x" using assms(1,3) by simp
  have ax: "\<bar>?x\<bar> = ?x" "?x \<noteq> 0" "sgn ?x = 1" using x1 by simp_all
  have fl: "\<lfloor>?x\<rfloor> = u" using assms(3) e1 by (intro floor_unique) simp_all
  define k where "k = bitlen u - 1"
  have ex: "exponent ?x = k" using x1 by (simp add: exponent_def fl k_def)
  have k0: "0 \<le> k" using exponent_ge_1(1) [OF x1] ex by simp
  have "bitlen u \<le> 24" using assms(2) by (simp add: bitlen_le_iff_power)
  then have k23: "k \<le> 23" by (simp add: k_def)
  have mx: "max k (- 126) = k" using k0 by simp
  define m where "m = nat (23 - k)"
  have km: "k - 23 = - int m" using k23 by (simp add: m_def)
  have ulp: "(2::real) powi (k - 23) = 1 / 2 ^ m"
    unfolding km by (simp add: power_int_minus_divide)
  have m23: "m \<le> 23" using k0 by (simp add: m_def)
  have "(2::real) ^ m \<le> 2 ^ 23" using m23 by (intro power_increasing) simp_all
  then have "e * 2 ^ m \<le> e * 2 ^ 23" using assms(3) by (intro mult_left_mono)
  also have "\<dots> < (1 / 2 ^ 24) * 2 ^ 23" using assms(4) by (intro mult_strict_right_mono) simp_all
  also have "\<dots> = (1 / 2 :: real)" by simp
  finally have small: "e * 2 ^ m < 1 / 2" .
  have nn: "0 \<le> e * 2 ^ m" using assms(3) by simp
  have "?x / (1 / 2 ^ m) = of_int (u * 2 ^ m) + e * 2 ^ m"
    by (simp add: algebra_simps)
  then have "round_even (?x / (1 / 2 ^ m)) = u * 2 ^ m"
    using round_even_near [OF nn small, of "u * 2 ^ m"] by simp
  then have "of_int (round_even (?x / (1 / 2 ^ m))) * (1 / 2 ^ m) = (of_int u :: real)"
    by simp
  moreover have "round32 ?x = sgn ?x * (of_int (round_even (\<bar>?x\<bar>
                      / 2 powi (max (exponent \<bar>?x\<bar>) (- 126) - 23)))
                    * 2 powi (max (exponent \<bar>?x\<bar>) (- 126) - 23))"
    unfolding round32_def Let_def using ax(2) by (simp only: if_False)
  ultimately show ?thesis
    by (simp only: ax ex mx ulp mult_1)
qed

lemma round32_zero: "round32 0 = 0"
  by (simp add: round32_def)

lemma round32_nonneg:
  assumes "0 \<le> x"
  shows "0 \<le> round32 x"
proof (cases "x = 0")
  case True
  then show ?thesis by (simp add: round32_def)
next
  case False
  then have ax: "\<bar>x\<bar> = x" "sgn x = 1" using assms by simp_all
  define ulp :: real where "ulp = 2 powi (max (exponent x) (- 126) - 23)"
  have up: "0 < ulp" by (simp add: ulp_def zero_less_power_int)
  have "0 \<le> x / ulp" using assms up by simp
  then have "0 \<le> \<lfloor>x / ulp\<rfloor>" by simp
  then have "0 \<le> round_even (x / ulp)" using round_even_ge_floor [of "x / ulp"] by linarith
  then have "0 \<le> (of_int (round_even (x / ulp)) :: real)" by simp
  then have "0 \<le> of_int (round_even (x / ulp)) * ulp" using up by simp
  moreover have "round32 x = sgn x * (of_int (round_even (\<bar>x\<bar>
                      / 2 powi (max (exponent \<bar>x\<bar>) (- 126) - 23)))
                    * 2 powi (max (exponent \<bar>x\<bar>) (- 126) - 23))"
    unfolding round32_def Let_def using False by (simp only: if_False)
  ultimately show ?thesis
    by (simp only: ax ulp_def mult_1)
qed

lemma round32_two_pow_24: "round32 16777216 = 16777216"
  by code_simp

lemma round32_int:
  fixes u :: int
  assumes "0 \<le> u" "u \<le> 2 ^ 24"
  shows "round32 (of_int u) = of_int u"
proof -
  consider "u = 0" | "1 \<le> u" "u < 2 ^ 24" | "u = 2 ^ 24"
    using assms by linarith
  then show ?thesis
  proof cases
    case 1
    then show ?thesis by (simp add: round32_zero)
  next
    case 2
    have "round32 (of_int u + 0) = of_int u"
      by (rule round32_absorb [OF 2]) simp_all
    then show ?thesis by simp
  next
    case 3
    then show ?thesis using round32_two_pow_24 by simp
  qed
qed

lemma round32_one: "round32 1 = 1"
proof -
  have "round32 (of_int 1) = of_int 1" by (rule round32_int) simp_all
  then show ?thesis by simp
qed

lemma round32_half: "round32 (1 / 2) = 1 / 2"
  by code_simp

lemma to_float32_exact: "0 \<le> k \<Longrightarrow> k \<le> 2 ^ 24 \<Longrightarrow> to_float32 k = of_int k"
  by (simp add: to_float32_def round32_int)

lemma to_float32_nonneg: "0 \<le> k \<Longrightarrow> 0 \<le> to_float32 k"
  by (simp add: to_float32_def round32_nonneg)

section \<open>Thresholding: what it computes\<close>

lemma threshold_loop_data:
  assumes "list_all (\<lambda>x. prod_list (shape x) \<noteq> 0) xs"
  shows "threshold_loop xs th =
           Inr (concat (map (\<lambda>x. map (\<lambda>v. if round32 th < v then 1 else 0) (data x)) xs))"
  using assms
proof (induction xs)
  case Nil
  show ?case by simp
next
  case (Cons x xs)
  have x: "prod_list (shape x) \<noteq> 0" and xs: "list_all (\<lambda>x. prod_list (shape x) \<noteq> 0) xs"
    using Cons.prems by simp_all
  show ?case
    using x Cons.IH [OF xs]
    by (simp add: cv2_threshold_def round32_one expand_last_def Let_def)
qed

lemma threshold_loop_empty_image:
  assumes "prod_list (shape x) = 0"
  shows "threshold_loop (x # xs) th = Inl EmptyImageError"
  using assms by (simp add: cv2_threshold_def)

lemma IoU_threshold_4d:
  assumes "well_shaped xarr" "shape xarr = [n, c, h, w]" "0 < c" "0 < h" "0 < w"
  shows "IoU_threshold xarr th =
           Inr \<lparr>shape = [n, h, w, c],
                data = map (\<lambda>v. if round32 th < v then 1 else 0)
                         (tabulate4 n h w c (\<lambda>i y x k. item4 xarr i k y x))\<rparr>"
proof -
  let ?xt = "\<lparr>shape = [n, h, w, c], data = tabulate4 n h w c (\<lambda>i y x k. item4 xarr i k y x)\<rparr>"
  let ?f = "\<lambda>v :: real. if round32 th < v then 1 else 0 :: real"
  have t: "transpose_0231 xarr = Inr ?xt"
    using assms(2) by (simp add: transpose_0231_def)
  have ws: "well_shaped ?xt"
    by (simp add: well_shaped_def length_tabulate4 mult.assoc)
  have "\<forall>x \<in> set (subarrays ?xt). shape x = [h, w, c]"
    by (rule subarrays_props(2)) simp
  then have "list_all (\<lambda>x. prod_list (shape x) \<noteq> 0) (subarrays ?xt)"
    using assms(3-5) by (simp add: list_all_iff)
  then have "threshold_loop (subarrays ?xt) th
               = Inr (concat (map (\<lambda>x. map ?f (data x)) (subarrays ?xt)))"
    by (rule threshold_loop_data)
  also have "concat (map (\<lambda>x. map ?f (data x)) (subarrays ?xt))
               = map ?f (concat (map data (subarrays ?xt)))"
    by (simp add: map_concat comp_def)
  also have "\<dots> = map ?f (data ?xt)"
    using data_subarrays [OF _ ws] by simp
  finally show ?thesis
    using t by (simp add: IoU_threshold_def)
qed

lemma set_transposed_data:
  assumes "well_shaped xarr" "shape xarr = [n, c, h, w]"
  shows "set (tabulate4 n h w c (\<lambda>i y x k. item4 xarr i k y x)) \<subseteq> set (data xarr)"
proof
  fix v assume "v \<in> set (tabulate4 n h w c (\<lambda>i y x k. item4 xarr i k y x))"
  then obtain i y x k where v: "v = item4 xarr i k y x" and b: "i < n" "y < h" "x < w" "k < c"
    using set_tabulate4 [of n h w c "\<lambda>i y x k. item4 xarr i k y x"] by blast
  have "((i * c + k) * h + y) * w + x < n * c * h * w"
    using b by (intro index_bound4)
  then have "((i * c + k) * h + y) * w + x < length (data xarr)"
    using assms by (simp add: well_shaped_def mult.assoc)
  then show "v \<in> set (data xarr)"
    using v assms(2) by (simp add: item4_def)
qed

text \<open>
  C6, as the code has it. For every 4-dimensional float32 array with axes
  (batch, channel, height, width) whose channel, height and width axes are not empty,
  and every threshold level, thresholding succeeds and maps each pixel value of each
  channel, independently, to 1 if it is strictly greater than the level converted to
  float32 and to 0 otherwise; the result has the axes (batch, height, width, channel).
\<close>

theorem threshold_elementwise:
  assumes "well_shaped xarr" "shape xarr = [n, c, h, w]" "0 < c" "0 < h" "0 < w"
  shows "\<exists>r. IoU_threshold xarr th = Inr r \<and> shape r = [n, h, w, c] \<and> well_shaped r \<and>
           (\<forall>i<n. \<forall>y<h. \<forall>x<w. \<forall>k<c.
              item4 r i y x k = (if round32 th < item4 xarr i k y x then 1 else 0))"
proof -
  let ?r = "\<lparr>shape = [n, h, w, c],
                data = map (\<lambda>v. if round32 th < v then 1 else 0)
                         (tabulate4 n h w c (\<lambda>i y x k. item4 xarr i k y x))\<rparr>"
  have "item4 ?r i y x k = (if round32 th < item4 xarr i k y x then 1 else 0)"
    if "i < n" "y < h" "x < w" "k < c" for i y x k
  proof -
    have "((i * h + y) * w + x) * c + k
            < length (tabulate4 n h w c (\<lambda>i y x k. item4 xarr i k y x))"
      using that by (simp add: length_tabulate4 index_bound4)
    then show ?thesis
      using that by (simp add: item4_def nth_tabulate4)
  qed
  then have px: "\<forall>i<n. \<forall>y<h. \<forall>x<w. \<forall>k<c.
      item4 ?r i y x k = (if round32 th < item4 xarr i k y x then 1 else 0)"
    by blast
  show ?thesis
  proof (intro exI conjI)
    show "IoU_threshold xarr th = Inr ?r" by (rule IoU_threshold_4d [OF assms])
    show "shape ?r = [n, h, w, c]" by simp
    show "well_shaped ?r" by (simp add: well_shaped_def length_tabulate4)
    show "\<forall>i<n. \<forall>y<h. \<forall>x<w. \<forall>k<c.
      item4 ?r i y x k = (if round32 th < item4 xarr i k y x then 1 else 0)" by (rule px)
  qed
qed

theorem threshold_elementwise_witness:
  "well_shaped \<lparr>shape = [1, 2, 1, 2], data = [3 / 10, 1 / 2, 7 / 10, 9 / 10 :: real]\<rparr> \<and>
   (\<exists>r. IoU_threshold \<lparr>shape = [1, 2, 1, 2], data = [3 / 10, 1 / 2, 7 / 10, 9 / 10]\<rparr> (1 / 2)
          = Inr r \<and>
        shape r = [1, 1, 2, 2] \<and> well_shaped r \<and>
        (\<forall>i<1. \<forall>y<1. \<forall>x<2. \<forall>k<2. item4 r i y x k =
           (if round32 (1 / 2) < item4 \<lparr>shape = [1, 2, 1, 2],
                               data = [3 / 10, 1 / 2, 7 / 10, 9 / 10 :: real]\<rparr> i k y x
            then 1 else 0))) \<and>
   IoU_threshold \<lparr>shape = [1, 2, 1, 2], data = [3 / 10, 1 / 2, 7 / 10, 9 / 10]\<rparr> (1 / 2)
     = Inr \<lparr>shape = [1, 1, 2, 2], data = [0, 1, 0, 1]\<rparr>"
proof -
  let ?x = "\<lparr>shape = [1, 2, 1, 2], data = [3 / 10, 1 / 2, 7 / 10, 9 / 10 :: real]\<rparr>"
  have h1: "well_shaped ?x" by (simp add: well_shaped_def)
  have h2: "shape ?x = [1, 2, 1, 2]" by simp
  have v: "IoU_threshold ?x (1 / 2) = Inr \<lparr>shape = [1, 1, 2, 2], data = [0, 1, 0, 1]\<rparr>"
    by code_simp
  show ?thesis
    using h1 v threshold_elementwise [OF h1 h2, of "1 / 2"] by simp
qed

text \<open>
  C6, as the claim states it, fails. The level 0.3 is the double
  \<open>5404319552844595 / 2 ^ 54\<close>, which OpenCV converts to the float32
  \<open>5033165 / 2 ^ 24\<close>. A pixel of exactly that float32 value is strictly greater than
  the level 0.3, and is mapped to 0.
\<close>

theorem threshold_level_is_rounded:
  "IoU_threshold \<lparr>shape = [1, 1, 1, 1], data = [5033165 / 16777216]\<rparr>
       (5404319552844595 / 18014398509481984)
     = Inr \<lparr>shape = [1, 1, 1, 1], data = [0]\<rparr> \<and>
   (5404319552844595 / 18014398509481984 :: real) < 5033165 / 16777216 \<and>
   round32 (5404319552844595 / 18014398509481984) = 5033165 / 16777216"
  by code_simp

text \<open>
  C5, as the code has it. For every 4-dimensional array whose values are all 0 or 1
  and whose channel, height and width axes are not empty, thresholding at 0.5 returns
  the same values with the axes moved from (batch, channel, height, width) to
  (batch, height, width, channel): the result is the transposed array, not the array
  itself.
\<close>

theorem threshold_binary_is_transpose:
  assumes "well_shaped xarr" "shape xarr = [n, c, h, w]" "0 < c" "0 < h" "0 < w"
    and "\<forall>v \<in> set (data xarr). v = 0 \<or> v = 1"
  shows "IoU_threshold xarr (1 / 2) = transpose_0231 xarr"
proof -
  let ?t = "tabulate4 n h w c (\<lambda>i y x k. item4 xarr i k y x)"
  have "\<forall>v \<in> set ?t. v = 0 \<or> v = 1"
    using set_transposed_data [OF assms(1,2)] assms(6) by blast
  then have "map (\<lambda>v. if 1 / 2 < v then 1 else 0) ?t = ?t"
    by (intro map_idI) auto
  then show ?thesis
    using IoU_threshold_4d [OF assms(1-5), of "1 / 2"] assms(2)
    by (simp add: transpose_0231_def round32_half)
qed

theorem threshold_binary_is_transpose_witness:
  "well_shaped \<lparr>shape = [1, 2, 2, 1], data = [0, 0, 1, 1 :: real]\<rparr> \<and>
   set [0, 0, 1, 1 :: real] = {0, 1} \<and>
   IoU_threshold \<lparr>shape = [1, 2, 2, 1], data = [0, 0, 1, 1]\<rparr> (1 / 2)
     = transpose_0231 \<lparr>shape = [1, 2, 2, 1], data = [0, 0, 1, 1]\<rparr> \<and>
   transpose_0231 \<lparr>shape = [1, 2, 2, 1], data = [0, 0, 1, 1 :: real]\<rparr>
     = Inr \<lparr>shape = [1, 2, 1, 2], data = [0, 1, 0, 1]\<rparr>"
proof -
  let ?x = "\<lparr>shape = [1, 2, 2, 1], data = [0, 0, 1, 1 :: real]\<rparr>"
  have h1: "well_shaped ?x" by (simp add: well_shaped_def)
  have h2: "shape ?x = [1, 2, 2, 1]" by simp
  have h3: "\<forall>v \<in> set (data ?x). v = 0 \<or> v = 1" by simp
  have t: "transpose_0231 ?x = Inr \<lparr>shape = [1, 2, 1, 2], data = [0, 1, 0, 1]\<rparr>"
    by code_simp
  have h4: "set [0, 0, 1, 1 :: real] = {0, 1}" by auto
  show ?thesis
    using h1 h4 t threshold_binary_is_transpose [OF h1 h2 _ _ _ h3] by simp
qed

text \<open>
  C5, as the claim states it, fails: the binary array of shape (1, 2, 2, 1) with the
  elements 0, 0, 1, 1 comes back with shape (1, 2, 1, 2) and the elements 0, 1, 0, 1.
\<close>

theorem threshold_binary_changes_layout:
  "IoU_threshold \<lparr>shape = [1, 2, 2, 1], data = [0, 0, 1, 1]\<rparr> (1 / 2)
     = Inr \<lparr>shape = [1, 2, 1, 2], data = [0, 1, 0, 1]\<rparr> \<and>
   IoU_threshold \<lparr>shape = [1, 2, 2, 1], data = [0, 0, 1, 1]\<rparr> (1 / 2)
     \<noteq> Inr \<lparr>shape = [1, 2, 2, 1], data = [0, 0, 1, 1]\<rparr>"
  by code_simp

section \<open>Label normalisation: what it computes\<close>

lemma map2_same:
  "map2 f (map g xs) (map h xs) = map (\<lambda>x. f (g x) (h x)) xs"
  by (induction xs) simp_all

lemma foldl_channels:
  "foldl (\<lambda>acc ch. map2 (+) acc (map (\<lambda>p. g p ch) [0..<m])) (replicate m (0::real)) chs
     = map (\<lambda>p. \<Sum>ch\<leftarrow>chs. g p ch) [0..<m]"
proof (induction chs rule: rev_induct)
  case Nil
  show ?case by (simp add: map_replicate_const)
next
  case (snoc x xs)
  show ?case by (simp add: snoc.IH map2_same)
qed

lemma squeeze_channels_inner_3d:
  "shape ilabel = [h, w, c] \<Longrightarrow>
     squeeze_channels_inner ilabel = Inr \<lparr>shape = [1, h, w], data = index_map (h * w) c (data ilabel)\<rparr>"
  by (simp add: squeeze_channels_inner_def index_map_def foldl_channels)

lemma np_concatenate_expanded:
  assumes "arrs \<noteq> []" "\<forall>b \<in> set arrs. shape b = 1 # s"
  shows "np_concatenate arrs = Inr \<lparr>shape = length arrs # s, data = concat (map data arrs)\<rparr>"
proof -
  obtain a as where arrs: "arrs = a # as" using assms(1) by (cases arrs) auto
  have "sum_list (map (\<lambda>b. hd (shape b)) arrs) = length arrs"
    using assms(2) by (induction arrs) auto
  moreover have "\<not> list_ex (\<lambda>b. shape b = []) arrs"
    using assms(2) by (auto simp: list_ex_iff)
  moreover have "\<not> list_ex (\<lambda>b. tl (shape b) \<noteq> tl (shape a)) as"
    using assms(2) arrs by (auto simp: list_ex_iff)
  ultimately show ?thesis
    using arrs assms(2) by (simp add: np_concatenate_def)
qed

lemma squeeze_loop_clip:
  assumes "\<forall>(l, i) \<in> set pairs. shape l = [h, w, c]"
  shows "squeeze_loop True c pairs iv lv =
           Inr (iv @ map (\<lambda>(l, i). expand_first i) pairs,
                lv @ map (\<lambda>(l, i). \<lparr>shape = [1, h, w],
                     data = map (\<lambda>v. if real c - 1 < v then 0 else v)
                              (index_map (h * w) c (data l))\<rparr>) pairs)"
  using assms
proof (induction pairs arbitrary: iv lv)
  case Nil
  show ?case by simp
next
  case (Cons pr pairs)
  obtain l i where pr: "pr = (l, i)" by (cases pr)
  have sh: "shape l = [h, w, c]" using Cons.prems pr by simp
  have rest: "\<forall>(l, i) \<in> set pairs. shape l = [h, w, c]" using Cons.prems by simp
  show ?case
    by (simp add: pr squeeze_channels_inner_3d [OF sh] Cons.IH [OF rest])
qed


lemma concat_data_expanded:
  "data \<circ> (\<lambda>(l, i). expand_first i) = (\<lambda>(l, i). data i)"
  by (auto simp: expand_first_def fun_eq_iff)


lemma squeeze_channels_clip:
  assumes "shape labels = [n, h, w, c]" "c \<noteq> 1" "shape images = n # ds" "well_shaped images"
    and "0 < n"
  shows "squeeze_channels images labels True =
           Inr (images,
                \<lparr>shape = [n, h, w],
                 data = concat (map (\<lambda>l. map (\<lambda>v. if real c - 1 < v then 0 else v)
                                            (index_map (h * w) c (data l)))
                                 (subarrays labels))\<rparr>)"
proof -
  let ?pairs = "zip (subarrays labels) (subarrays images)"
  let ?iv = "map (\<lambda>(l, i). expand_first i) ?pairs"
  let ?lv = "map (\<lambda>(l, i). \<lparr>shape = [1, h, w],
                     data = map (\<lambda>v. if real c - 1 < v then 0 else v)
                              (index_map (h * w) c (data l))\<rparr>) ?pairs"
  have ll: "length (subarrays labels) = n" and li: "length (subarrays images) = n"
    using subarrays_props(1) assms(1,3) by blast+
  have len: "length ?pairs = n" using ll li by simp
  have shl: "\<forall>(l, i) \<in> set ?pairs. shape l = [h, w, c]"
    using subarrays_props(2) [OF assms(1)] by (auto dest: set_zip_leftD)
  have shi: "\<forall>(l, i) \<in> set ?pairs. shape i = ds"
    using subarrays_props(2) [OF assms(3)] by (auto dest: set_zip_rightD)
  have loop: "squeeze_loop True c ?pairs [] [] = Inr (?iv, ?lv)"
    using squeeze_loop_clip [OF shl, of "[]" "[]"] by simp
  have ne: "?pairs \<noteq> []" using len assms(5) by auto
  have "\<forall>b \<in> set ?iv. shape b = 1 # ds"
    using shi by (auto simp: expand_first_def)
  then have "np_concatenate ?iv
        = Inr \<lparr>shape = n # ds, data = concat (map (\<lambda>(l, i). data i) ?pairs)\<rparr>"
    using np_concatenate_expanded [of ?iv ds] ne len by (simp add: concat_data_expanded)
  moreover have "map (\<lambda>(l, i). data i) ?pairs = map data (subarrays images)"
    using ll li by (simp add: case_prod_unfold flip: map_map [unfolded comp_def])
  ultimately have ci: "np_concatenate ?iv = Inr images"
    using data_subarrays [OF assms(3,4)] assms(3) by simp
  have "\<forall>b \<in> set ?lv. shape b = 1 # [h, w]" by auto
  then have "np_concatenate ?lv = Inr \<lparr>shape = [n, h, w], data = concat (map data ?lv)\<rparr>"
    using np_concatenate_expanded [of ?lv "[h, w]"] ne len by simp
  moreover have "map data ?lv = map (\<lambda>l. map (\<lambda>v. if real c - 1 < v then 0 else v)
                                            (index_map (h * w) c (data l))) (subarrays labels)"
  proof -
    have "map data ?lv = map ((\<lambda>l. map (\<lambda>v. if real c - 1 < v then 0 else v)
                                  (index_map (h * w) c (data l))) \<circ> fst) ?pairs"
      by (simp add: case_prod_unfold comp_def)
    also have "\<dots> = map (\<lambda>l. map (\<lambda>v. if real c - 1 < v then 0 else v)
                                  (index_map (h * w) c (data l))) (map fst ?pairs)"
      by simp
    finally show ?thesis using ll li by simp
  qed
  ultimately have cl: "np_concatenate ?lv = Inr \<lparr>shape = [n, h, w],
      data = concat (map (\<lambda>l. map (\<lambda>v. if real c - 1 < v then 0 else v)
                                  (index_map (h * w) c (data l))) (subarrays labels))\<rparr>"
    by simp
  show ?thesis
    using assms(1-3) loop ci cl by (simp add: squeeze_channels_def)
qed









section \<open>Confusion histogram: what it computes\<close>

lemma fold_max_ge_init: "(a::int) \<le> fold max xs a"
proof (induction xs arbitrary: a)
  case Nil show ?case by simp
next
  case (Cons x xs)
  have "a \<le> max x a" by simp
  also have "\<dots> \<le> fold max xs (max x a)" by (rule Cons.IH)
  finally show ?case by simp
qed

lemma fold_max_ge_elem: "x \<in> set xs \<Longrightarrow> (x::int) \<le> fold max xs a"
proof (induction xs arbitrary: a)
  case Nil then show ?case by simp
next
  case (Cons y ys)
  show ?case
  proof (cases "x = y")
    case True
    have "x \<le> max y a" using True by simp
    also have "\<dots> \<le> fold max ys (max y a)" by (rule fold_max_ge_init)
    finally show ?thesis by simp
  next
    case False
    then have "x \<in> set ys" using Cons.prems by simp
    then show ?thesis using Cons.IH by simp
  qed
qed

lemma fold_max_le: "\<forall>x \<in> set xs. x \<le> b \<Longrightarrow> a \<le> b \<Longrightarrow> fold max xs a \<le> (b::int)"
  by (induction xs arbitrary: a) simp_all

lemma bincount_Inr:
  "bincount xs m = Inr cs \<longleftrightarrow>
     (\<forall>x \<in> set xs. 0 \<le> x) \<and> cs = map (\<lambda>k. int (count_list xs (int k))) [0..<max m (nat (fold max (map (\<lambda>x. x + 1) xs) 0))]"
proof (cases "list_ex (\<lambda>x. x < 0) xs")
  case True
  then obtain x where "x \<in> set xs" "x < 0" by (auto simp: list_ex_iff)
  then have "\<not> (\<forall>x \<in> set xs. 0 \<le> x)" by force
  then show ?thesis using True by (simp add: bincount_def)
next
  case False
  then have "\<forall>x \<in> set xs. 0 \<le> x" by (force simp: list_ex_iff)
  then show ?thesis using False by (auto simp: bincount_def)
qed

lemma bins_covers: "x \<in> set xs \<Longrightarrow> x < int (max m (nat (fold max (map (\<lambda>x. x + 1) xs) 0)))"
proof -
  assume "x \<in> set xs"
  then have "x + 1 \<in> set (map (\<lambda>x. x + 1) xs)" by simp
  then have "x + 1 \<le> fold max (map (\<lambda>x. x + 1) xs) 0" by (rule fold_max_ge_elem)
  then show ?thesis by simp
qed

lemma bins_exact: "\<forall>x \<in> set xs. x < int m \<Longrightarrow> max m (nat (fold max (map (\<lambda>x. x + 1) xs) 0)) = m"
proof -
  assume "\<forall>x \<in> set xs. x < int m"
  then have "\<forall>y \<in> set (map (\<lambda>x. x + 1) xs). y \<le> int m" by auto
  then have "fold max (map (\<lambda>x. x + 1) xs) 0 \<le> int m" by (rule fold_max_le) simp
  then show ?thesis by simp
qed

lemma sum_list_bincount:
  assumes "bincount xs m = Inr cs"
  shows "sum_list cs = int (length xs)"
proof -
  let ?L = "max m (nat (fold max (map (\<lambda>x. x + 1) xs) 0))"
  from assms have nn: "\<forall>x \<in> set xs. 0 \<le> x"
    and cs: "cs = map (\<lambda>k. int (count_list xs (int k))) [0..<?L]"
    by (simp_all add: bincount_Inr)
  have sub: "set xs \<subseteq> int ` {0..<?L}"
  proof
    fix x assume x: "x \<in> set xs"
    then have "0 \<le> x" "x < int ?L" using nn bins_covers by auto
    then have "nat x \<in> {0..<?L}" "x = int (nat x)" by auto
    then show "x \<in> int ` {0..<?L}" by blast
  qed
  have "sum_list cs = (\<Sum>k = 0..<?L. int (count_list xs (int k)))"
    unfolding cs by (simp add: interv_sum_list_conv_sum_set_nat)
  also have "\<dots> = int (\<Sum>k = 0..<?L. count_list xs (int k))" by simp
  also have "(\<Sum>k = 0..<?L. count_list xs (int k)) = sum (count_list xs) (int ` {0..<?L})"
    by (simp add: sum.reindex comp_def)
  also have "\<dots> = length xs"
    by (rule sum_count_set [OF sub]) simp
  finally show ?thesis .
qed

lemma reshape2_Inr:
  "reshape2 xs r c = Inr h \<longleftrightarrow>
     length xs = r * c \<and> h = map (\<lambda>i. take c (drop (i * c) xs)) [0..<r]"
  by (auto simp: reshape2_def)

lemma reshape2_concat: "reshape2 xs r c = Inr h \<Longrightarrow> concat h = xs"
  by (simp add: reshape2_Inr concat_chunks)

lemma reshape2_dims:
  assumes "reshape2 xs r c = Inr h"
  shows "length h = r" and "\<forall>row \<in> set h. length row = c"
proof -
  from assms have len: "length xs = r * c"
    and h: "h = map (\<lambda>i. take c (drop (i * c) xs)) [0..<r]"
    by (simp_all add: reshape2_Inr)
  show "length h = r" by (simp add: h)
  show "\<forall>row \<in> set h. length row = c"
  proof
    fix row assume "row \<in> set h"
    then obtain i where i: "i < r" and row: "row = take c (drop (i * c) xs)"
      by (auto simp: h)
    have "Suc i * c \<le> r * c" using i by (simp only: mult_le_mono1 Suc_leI)
    then have "c \<le> length xs - i * c" using len by simp
    then show "length row = c" by (simp add: row)
  qed
qed

lemma bincount_hist_Inr:
  "bincount_hist nb ts ps = Inr h \<longleftrightarrow>
     length ps = length ts \<and>
     (\<exists>cs. bincount (map (\<lambda>(t, p). int nb * t + p)
                (filter (\<lambda>(t, p). 0 \<le> t \<and> t < int nb) (zip ts ps))) (nb ^ 2) = Inr cs \<and>
           reshape2 cs nb nb = Inr h)"
  by (auto simp: bincount_hist_def split: sum.splits)

lemma length_filter_zip_fst:
  "length ps = length ts \<Longrightarrow>
     length (filter (\<lambda>(t, p). P t) (zip ts ps)) = length (filter P ts)"
  by (induction ps ts rule: list_induct2) simp_all

lemma sum_list_concat_int: "sum_list (concat xss) = (sum_list (map sum_list xss) :: int)"
  by (induction xss) simp_all

lemma bincount_hist_props:
  assumes "bincount_hist nb ts ps = Inr h"
  shows "is_square nb h"
    and "hist_total h = int (valid_positions nb ts)"
    and "list_all (list_all (\<lambda>v. 0 \<le> v)) h"
proof -
  let ?idx = "map (\<lambda>(t, p). int nb * t + p)
                (filter (\<lambda>(t, p). 0 \<le> t \<and> t < int nb) (zip ts ps))"
  from assms obtain cs where len: "length ps = length ts"
    and bc: "bincount ?idx (nb ^ 2) = Inr cs" and rs: "reshape2 cs nb nb = Inr h"
    by (auto simp: bincount_hist_Inr)
  show "is_square nb h"
    using reshape2_dims [OF rs] by (simp add: is_square_def list_all_iff)
  have "hist_total h = sum_list (concat h)"
    by (simp add: hist_total_def sum_list_concat_int)
  also have "\<dots> = sum_list cs" by (simp add: reshape2_concat [OF rs])
  also have "\<dots> = int (length ?idx)" by (rule sum_list_bincount [OF bc])
  also have "\<dots> = int (valid_positions nb ts)"
    using length_filter_zip_fst [OF len, of "\<lambda>t. 0 \<le> t \<and> t < int nb"]
    by (simp add: valid_positions_def)
  finally show "hist_total h = int (valid_positions nb ts)" .
  have "\<forall>v \<in> set cs. 0 \<le> v" using bc by (auto simp: bincount_Inr)
  moreover have "set cs = set (concat h)" by (simp add: reshape2_concat [OF rs])
  ultimately show "list_all (list_all (\<lambda>v. 0 \<le> v)) h"
    by (auto simp: list_all_iff)
qed

lemma compute_hist_Inr:
  "compute_hist nb ts ps = Inr h \<longleftrightarrow>
     (\<exists>m. bincount_hist nb ts ps = Inr m \<and> h = map (map to_float32) m)"
  by (auto simp: compute_hist_def split: sum.splits)

lemma sum_list_nonneg_int: "list_all (\<lambda>v. 0 \<le> v) xs \<Longrightarrow> 0 \<le> (sum_list xs :: int)"
  by (induction xs) simp_all

lemma hist_total_nonneg_int:
  "list_all (list_all (\<lambda>v. 0 \<le> v)) M \<Longrightarrow> 0 \<le> (hist_total M :: int)"
  by (induction M) (simp_all add: hist_total_def sum_list_nonneg_int)

lemma hist_total_of_int:
  "hist_total (map (map of_int) M) = (of_int (hist_total M) :: real)"
proof -
  have row: "sum_list (map of_int r) = (of_int (sum_list r) :: real)" for r :: "int list"
    by (induction r) simp_all
  show ?thesis
    unfolding hist_total_def by (induction M) (simp_all add: row)
qed

text \<open>Counts whose total is at most \<open>2 ^ 24\<close> are float32 numbers, and so are their sums.\<close>

lemma row_to_float32_exact:
  "list_all (\<lambda>v. 0 \<le> v) r \<Longrightarrow> sum_list r \<le> 2 ^ 24 \<Longrightarrow> map to_float32 r = map of_int r"
proof (induction r)
  case Nil
  show ?case by simp
next
  case (Cons a r)
  have a: "0 \<le> a" and r: "list_all (\<lambda>v. 0 \<le> v) r" using Cons.prems(1) by simp_all
  have s: "0 \<le> sum_list r" by (rule sum_list_nonneg_int [OF r])
  have "a \<le> 2 ^ 24" using Cons.prems(2) s by simp
  then have "to_float32 a = of_int a" by (rule to_float32_exact [OF a])
  moreover have "sum_list r \<le> 2 ^ 24" using Cons.prems(2) a by simp
  ultimately show ?case using Cons.IH [OF r] by simp
qed

lemma matrix_to_float32_exact:
  "list_all (list_all (\<lambda>v. 0 \<le> v)) M \<Longrightarrow> hist_total M \<le> 2 ^ 24 \<Longrightarrow>
     map (map to_float32) M = map (map of_int) M"
proof (induction M)
  case Nil
  show ?case by simp
next
  case (Cons r M)
  have r: "list_all (\<lambda>v. 0 \<le> v) r" and M: "list_all (list_all (\<lambda>v. 0 \<le> v)) M"
    using Cons.prems(1) by simp_all
  have t: "sum_list r + hist_total M \<le> 2 ^ 24"
    using Cons.prems(2) by (simp add: hist_total_def)
  have "0 \<le> hist_total M" by (rule hist_total_nonneg_int [OF M])
  then have "sum_list r \<le> 2 ^ 24" using t by simp
  then have "map to_float32 r = map of_int r" by (rule row_to_float32_exact [OF r])
  moreover have "0 \<le> sum_list r" by (rule sum_list_nonneg_int [OF r])
  then have "hist_total M \<le> 2 ^ 24" using t by simp
  ultimately show ?case using Cons.IH [OF M] by simp
qed

lemma row_add_exact:
  assumes "length r = length s"
    and "list_all (\<lambda>v. 0 \<le> v) r" "list_all (\<lambda>v. 0 \<le> v) s"
    and "sum_list r + sum_list s \<le> 2 ^ 24"
  shows "map2 (\<lambda>a b. round32 (a + b)) (map of_int r) (map of_int s)
           = map of_int (map2 (+) r s)"
  using assms
proof (induction r s rule: list_induct2)
  case Nil
  show ?case by simp
next
  case (Cons a r b s)
  have a: "0 \<le> a" and r: "list_all (\<lambda>v. 0 \<le> v) r" using Cons.prems(1) by simp_all
  have b: "0 \<le> b" and s: "list_all (\<lambda>v. 0 \<le> v) s" using Cons.prems(2) by simp_all
  have sr: "0 \<le> sum_list r" by (rule sum_list_nonneg_int [OF r])
  have ss: "0 \<le> sum_list s" by (rule sum_list_nonneg_int [OF s])
  have t: "a + sum_list r + (b + sum_list s) \<le> 2 ^ 24" using Cons.prems(3) by simp
  have "0 \<le> a + b" using a b by simp
  moreover have "a + b \<le> 2 ^ 24" using t sr ss by linarith
  ultimately have "round32 (of_int (a + b)) = of_int (a + b)" by (rule round32_int)
  then have hd: "round32 (of_int a + of_int b) = of_int (a + b)" by simp
  have "sum_list r + sum_list s \<le> 2 ^ 24" using t a b by linarith
  then have "map2 (\<lambda>a b. round32 (a + b)) (map of_int r) (map of_int s)
               = map of_int (map2 (+) r s)"
    by (rule Cons.IH [OF r s])
  then show ?case using hd by simp
qed

lemma matrix_add_exact:
  assumes "length H = length G"
    and "list_all (\<lambda>p. length (fst p) = length (snd p)) (zip H G)"
    and "list_all (list_all (\<lambda>v. 0 \<le> v)) H" "list_all (list_all (\<lambda>v. 0 \<le> v)) G"
    and "hist_total H + hist_total G \<le> 2 ^ 24"
  shows "map2 (map2 (\<lambda>a b. round32 (a + b))) (map (map of_int) H) (map (map of_int) G)
           = map (map of_int) (map2 (map2 (+)) H G)"
  using assms
proof (induction H G rule: list_induct2)
  case Nil
  show ?case by simp
next
  case (Cons r H s G)
  have len: "length r = length s"
    and lens: "list_all (\<lambda>p. length (fst p) = length (snd p)) (zip H G)"
    using Cons.prems(1) by simp_all
  have r: "list_all (\<lambda>v. 0 \<le> v) r" and H: "list_all (list_all (\<lambda>v. 0 \<le> v)) H"
    using Cons.prems(2) by simp_all
  have s: "list_all (\<lambda>v. 0 \<le> v) s" and G: "list_all (list_all (\<lambda>v. 0 \<le> v)) G"
    using Cons.prems(3) by simp_all
  have t: "sum_list r + hist_total H + (sum_list s + hist_total G) \<le> 2 ^ 24"
    using Cons.prems(4) by (simp add: hist_total_def)
  have nn: "0 \<le> sum_list r" "0 \<le> sum_list s" "0 \<le> hist_total H" "0 \<le> hist_total G"
    using sum_list_nonneg_int [OF r] sum_list_nonneg_int [OF s]
      hist_total_nonneg_int [OF H] hist_total_nonneg_int [OF G] by simp_all
  have "sum_list r + sum_list s \<le> 2 ^ 24" using t nn by linarith
  then have row: "map2 (\<lambda>a b. round32 (a + b)) (map of_int r) (map of_int s)
               = map of_int (map2 (+) r s)"
    by (rule row_add_exact [OF len r s])
  have "hist_total H + hist_total G \<le> 2 ^ 24" using t nn by linarith
  then have "map2 (map2 (\<lambda>a b. round32 (a + b))) (map (map of_int) H) (map (map of_int) G)
           = map (map of_int) (map2 (map2 (+)) H G)"
    by (rule Cons.IH [OF lens H G])
  then show ?case using row by simp
qed

lemma is_square_rows:
  assumes "is_square n H" "is_square n G"
  shows "length H = length G"
    and "list_all (\<lambda>p. length (fst p) = length (snd p)) (zip H G)"
proof -
  show "length H = length G" using assms by (simp add: is_square_def)
  have "length (fst p) = length (snd p)" if "p \<in> set (zip H G)" for p
  proof -
    obtain r s where p: "p = (r, s)" by (cases p)
    have "r \<in> set H" "s \<in> set G"
      using that unfolding p by (auto dest: set_zip_leftD set_zip_rightD)
    then show ?thesis using assms by (simp add: p is_square_def list_all_iff)
  qed
  then show "list_all (\<lambda>p. length (fst p) = length (snd p)) (zip H G)"
    by (simp add: list_all_iff)
qed

lemma sum_list_map2_add:
  "length xs = length ys \<Longrightarrow> sum_list (map2 (+) xs ys) = sum_list xs + (sum_list ys :: int)"
  by (induction xs ys rule: list_induct2) simp_all

lemma hist_total_add:
  fixes H G :: "int list list"
  assumes "is_square n H" "is_square n G"
  shows "hist_total (map2 (map2 (+)) H G) = hist_total H + hist_total G"
proof -
  have "length H = length G" using assms by (simp add: is_square_def)
  moreover have "\<forall>r \<in> set H. length r = n" "\<forall>r \<in> set G. length r = n"
    using assms by (simp_all add: is_square_def list_all_iff)
  ultimately show ?thesis
    unfolding hist_total_def
    by (induction H G rule: list_induct2) (simp_all add: sum_list_map2_add)
qed

lemma is_square_add:
  assumes "is_square n H" "is_square n G"
  shows "is_square n (map2 (map2 (+)) H G)"
proof -
  have "length r = n \<and> length s = n" if "(r, s) \<in> set (zip H G)" for r s
    using that assms by (auto simp: is_square_def list_all_iff dest: set_zip_leftD set_zip_rightD)
  then show ?thesis
    using assms by (auto simp: is_square_def list_all_iff)
qed

lemma nonneg_add:
  assumes "list_all (list_all (\<lambda>v. 0 \<le> v)) H" "list_all (list_all (\<lambda>v. 0 \<le> v)) G"
  shows "list_all (list_all (\<lambda>v. (0::int) \<le> v)) (map2 (map2 (+)) H G)"
proof -
  have "0 \<le> a + b" if "(r, s) \<in> set (zip H G)" "(a, b) \<in> set (zip r s)" for r s a b
  proof -
    have "r \<in> set H" "s \<in> set G" using that(1) by (auto dest: set_zip_leftD set_zip_rightD)
    moreover have "a \<in> set r" "b \<in> set s" using that(2) by (auto dest: set_zip_leftD set_zip_rightD)
    ultimately have "0 \<le> a" "0 \<le> b" using assms by (auto simp: list_all_iff)
    then show ?thesis by simp
  qed
  then show ?thesis by (auto simp: list_all_iff)
qed

lemma accumulate_hist_exact:
  assumes "accumulate_hist nb pairs (map (map of_int) M0) = Inr H" "is_square nb M0"
    and "list_all (list_all (\<lambda>v. 0 \<le> v)) M0"
    and "hist_total M0 + (\<Sum>(t, p)\<leftarrow>pairs. int (valid_positions nb (data t))) \<le> 2 ^ 24"
  shows "\<exists>M. H = map (map of_int) M \<and> is_square nb M \<and> list_all (list_all (\<lambda>v. 0 \<le> v)) M \<and>
           hist_total M
             = hist_total M0 + (\<Sum>(t, p)\<leftarrow>pairs. int (valid_positions nb (data t)))"
  using assms
proof (induction pairs arbitrary: M0)
  case Nil
  then show ?case by auto
next
  case (Cons pr pairs)
  obtain t p where pr: "pr = (t, p)" by (cases pr)
  define rest where "rest = (\<Sum>(t, p)\<leftarrow>pairs. int (valid_positions nb (data t)))"
  have rest0: "0 \<le> rest" unfolding rest_def by (rule sum_list_nonneg) auto
  from Cons.prems(1) obtain h where h: "compute_hist nb (data t) (data p) = Inr h"
    and acc: "accumulate_hist nb pairs
                (map2 (map2 (\<lambda>a b. round32 (a + b))) (map (map of_int) M0) h) = Inr H"
    by (auto simp: pr split: sum.splits)
  from h obtain m where m: "bincount_hist nb (data t) (data p) = Inr m"
    and hm: "h = map (map to_float32) m"
    by (auto simp: compute_hist_Inr)
  note mp = bincount_hist_props [OF m]
  have bound: "hist_total M0 + int (valid_positions nb (data t)) + rest \<le> 2 ^ 24"
    using Cons.prems(4) by (simp add: pr rest_def)
  have t0: "0 \<le> hist_total M0" by (rule hist_total_nonneg_int [OF Cons.prems(3)])
  have "hist_total m \<le> 2 ^ 24" using bound t0 rest0 mp(2) by linarith
  then have hm': "h = map (map of_int) m"
    unfolding hm by (rule matrix_to_float32_exact [OF mp(3)])
  have "hist_total M0 + hist_total m \<le> 2 ^ 24" using bound rest0 mp(2) by linarith
  then have step: "map2 (map2 (\<lambda>a b. round32 (a + b))) (map (map of_int) M0) h
               = map (map of_int) (map2 (map2 (+)) M0 m)"
    unfolding hm'
    by (rule matrix_add_exact [OF is_square_rows [OF Cons.prems(2) mp(1)] Cons.prems(3) mp(3)])
  have sq: "is_square nb (map2 (map2 (+)) M0 m)"
    by (rule is_square_add [OF Cons.prems(2) mp(1)])
  have nn: "list_all (list_all (\<lambda>v. 0 \<le> v)) (map2 (map2 (+)) M0 m)"
    by (rule nonneg_add [OF Cons.prems(3) mp(3)])
  have tot: "hist_total (map2 (map2 (+)) M0 m)
               = hist_total M0 + int (valid_positions nb (data t))"
    using hist_total_add [OF Cons.prems(2) mp(1)] mp(2) by simp
  have acc': "accumulate_hist nb pairs (map (map of_int) (map2 (map2 (+)) M0 m)) = Inr H"
    using acc step by simp
  have bound': "hist_total (map2 (map2 (+)) M0 m)
                  + (\<Sum>(t, p)\<leftarrow>pairs. int (valid_positions nb (data t))) \<le> 2 ^ 24"
    using bound tot by (simp add: rest_def)
  from Cons.IH [OF acc' sq nn bound']
  obtain M where M: "H = map (map of_int) M" "is_square nb M"
      "list_all (list_all (\<lambda>v. 0 \<le> v)) M"
    and tM: "hist_total M = hist_total (map2 (map2 (+)) M0 m)
               + (\<Sum>(t, p)\<leftarrow>pairs. int (valid_positions nb (data t)))"
    by blast
  have "hist_total M = hist_total M0
          + (\<Sum>(t, p)\<leftarrow>pr # pairs. int (valid_positions nb (data t)))"
    unfolding tM tot by (simp add: pr)
  then show ?case using M by blast
qed

text \<open>Whatever the counts, no entry of the histogram is negative.\<close>

lemma row_add_nonneg:
  "list_all (\<lambda>v. 0 \<le> v) r \<Longrightarrow> list_all (\<lambda>v. 0 \<le> v) s \<Longrightarrow>
     list_all (\<lambda>v. 0 \<le> v) (map2 (\<lambda>a b. round32 (a + b)) r s)"
proof (induction r arbitrary: s)
  case Nil
  show ?case by simp
next
  case (Cons a r)
  show ?case
  proof (cases s)
    case Nil
    then show ?thesis by simp
  next
    case (Cons b s')
    have "0 \<le> a" "0 \<le> b" using Cons.prems Cons by simp_all
    then have "0 \<le> round32 (a + b)" by (intro round32_nonneg) simp
    moreover have "list_all (\<lambda>v. 0 \<le> v) (map2 (\<lambda>a b. round32 (a + b)) r s')"
      using Cons.IH [of s'] Cons.prems Cons by simp
    ultimately show ?thesis using Cons by simp
  qed
qed

lemma matrix_add_nonneg:
  "list_all (list_all (\<lambda>v. 0 \<le> v)) H \<Longrightarrow> list_all (list_all (\<lambda>v. 0 \<le> v)) G \<Longrightarrow>
     list_all (list_all (\<lambda>v. 0 \<le> v)) (map2 (map2 (\<lambda>a b. round32 (a + b))) H G)"
proof (induction H arbitrary: G)
  case Nil
  show ?case by simp
next
  case (Cons r H)
  show ?case
  proof (cases G)
    case Nil
    then show ?thesis by simp
  next
    case (Cons s G')
    have "list_all (\<lambda>v. 0 \<le> v) (map2 (\<lambda>a b. round32 (a + b)) r s)"
      using Cons.prems Cons by (intro row_add_nonneg) simp_all
    moreover have "list_all (list_all (\<lambda>v. 0 \<le> v))
                     (map2 (map2 (\<lambda>a b. round32 (a + b))) H G')"
      using Cons.IH [of G'] Cons.prems Cons by simp
    ultimately show ?thesis using Cons by simp
  qed
qed

lemma compute_hist_nonneg:
  assumes "compute_hist nb ts ps = Inr h"
  shows "list_all (list_all (\<lambda>v. 0 \<le> v)) h"
proof -
  from assms obtain m where m: "bincount_hist nb ts ps = Inr m"
    and hm: "h = map (map to_float32) m"
    by (auto simp: compute_hist_Inr)
  have "list_all (list_all (\<lambda>v. 0 \<le> v)) m" by (rule bincount_hist_props(3) [OF m])
  then show ?thesis
    unfolding hm by (auto simp: list_all_iff to_float32_nonneg)
qed

lemma accumulate_hist_nonneg:
  assumes "accumulate_hist nb pairs H0 = Inr H" "list_all (list_all (\<lambda>v. 0 \<le> v)) H0"
  shows "list_all (list_all (\<lambda>v. 0 \<le> v)) H"
  using assms
proof (induction pairs arbitrary: H0)
  case Nil
  then show ?case by simp
next
  case (Cons pr pairs)
  obtain t p where pr: "pr = (t, p)" by (cases pr)
  from Cons.prems(1) obtain h where h: "compute_hist nb (data t) (data p) = Inr h"
    and acc: "accumulate_hist nb pairs (map2 (map2 (\<lambda>a b. round32 (a + b))) H0 h) = Inr H"
    by (auto simp: pr split: sum.splits)
  have "list_all (list_all (\<lambda>v. 0 \<le> v)) (map2 (map2 (\<lambda>a b. round32 (a + b))) H0 h)"
    by (rule matrix_add_nonneg [OF Cons.prems(2) compute_hist_nonneg [OF h]])
  then show ?case by (rule Cons.IH [OF acc])
qed

lemma is_square_zeros: "is_square n (replicate n (replicate n 0))"
  by (simp add: is_square_def list_all_iff)

lemma hist_total_zeros: "hist_total (replicate n (replicate m (0::int))) = 0"
  by (simp add: hist_total_def sum_list_replicate)

lemma valid_positions_concat:
  "(\<Sum>t\<leftarrow>xs. int (valid_positions nb (data t))) = int (valid_positions nb (concat (map data xs)))"
  by (induction xs) (simp_all add: valid_positions_def)

lemma valid_positions_subarrays:
  assumes "shape a = n # ds" "well_shaped a"
  shows "(\<Sum>t\<leftarrow>subarrays a. int (valid_positions nb (data t))) = int (valid_positions nb (data a))"
  using valid_positions_concat [of nb "subarrays a"] data_subarrays [OF assms] by simp

lemma sum_list_zip_fst:
  "length xs \<le> length ys \<Longrightarrow> (\<Sum>(t, p)\<leftarrow>zip xs ys. f t) = (\<Sum>t\<leftarrow>xs. f t :: int)"
proof (induction xs arbitrary: ys)
  case Nil
  show ?case by simp
next
  case (Cons x xs)
  then obtain y ys' where "ys = y # ys'" by (cases ys) auto
  then show ?case using Cons by simp
qed

text \<open>
  C4, as the code has it. For every batch that \<open>evaluate\<close> processes, the accumulated
  histogram has only non-negative entries. When the number of pixel positions, over the
  image pairs of the batch, whose true value is a class index (\<open>0 \<le> t < nb_classes\<close>)
  is at most \<open>2 ^ 24\<close>, the sum of all entries of the histogram is that number; when
  moreover the true tensor has no more images than the predicted one, that is the
  number of such positions in the whole true tensor.
\<close>

theorem evaluate_hist_total:
  assumes "evaluate_hist self = Inr hist"
  shows "list_all (list_all (\<lambda>v. 0 \<le> v)) hist \<and>
         ((\<Sum>(t, p)\<leftarrow>zip (subarrays (true self)) (subarrays (pred self)).
              int (valid_positions (nb_classes self) (data t))) \<le> 2 ^ 24 \<longrightarrow>
          hist_total hist =
            real_of_int (\<Sum>(t, p)\<leftarrow>zip (subarrays (true self)) (subarrays (pred self)).
              int (valid_positions (nb_classes self) (data t))) \<and>
          (well_shaped (true self) \<and> hd (shape (true self)) \<le> hd (shape (pred self)) \<longrightarrow>
             hist_total hist = real (valid_positions (nb_classes self) (data (true self)))))"
proof -
  let ?nb = "nb_classes self"
  let ?pairs = "zip (subarrays (true self)) (subarrays (pred self))"
  let ?Z = "replicate ?nb (replicate ?nb (0::int))"
  let ?S = "\<Sum>(t, p)\<leftarrow>?pairs. int (valid_positions ?nb (data t))"
  from assms have ne: "shape (true self) \<noteq> []" "shape (pred self) \<noteq> []"
    and acc: "accumulate_hist ?nb ?pairs (replicate ?nb (replicate ?nb 0)) = Inr hist"
    by (auto simp: evaluate_hist_def split: if_splits)
  have zr: "replicate ?nb (replicate ?nb (0::real)) = map (map of_int) ?Z" by simp
  have z: "list_all (list_all (\<lambda>v. (0::int) \<le> v)) ?Z" by (simp add: list_all_iff)
  have "list_all (list_all (\<lambda>v. (0::real) \<le> v)) (replicate ?nb (replicate ?nb 0))"
    by (simp add: list_all_iff)
  then have nonneg: "list_all (list_all (\<lambda>v. 0 \<le> v)) hist"
    by (rule accumulate_hist_nonneg [OF acc])
  have total: "hist_total hist = real_of_int ?S \<and>
          (well_shaped (true self) \<and> hd (shape (true self)) \<le> hd (shape (pred self)) \<longrightarrow>
             hist_total hist = real (valid_positions ?nb (data (true self))))"
    if small: "?S \<le> 2 ^ 24"
  proof -
    have acc': "accumulate_hist ?nb ?pairs (map (map of_int) ?Z) = Inr hist"
      using acc by (simp only: zr)
    have bound: "hist_total ?Z + ?S \<le> 2 ^ 24"
      using small by (simp only: hist_total_zeros add_0)
    from accumulate_hist_exact [OF acc' is_square_zeros z bound]
    obtain M where M: "hist = map (map of_int) M" and tM: "hist_total M = hist_total ?Z + ?S"
      by blast
    have tot: "hist_total hist = real_of_int ?S"
      unfolding M hist_total_of_int tM by (simp only: hist_total_zeros add_0)
    have "hist_total hist = real (valid_positions ?nb (data (true self)))"
      if ws: "well_shaped (true self)" and le: "hd (shape (true self)) \<le> hd (shape (pred self))"
    proof -
      obtain n ds where st: "shape (true self) = n # ds"
        using ne(1) by (cases "shape (true self)") auto
      obtain m es where sp: "shape (pred self) = m # es"
        using ne(2) by (cases "shape (pred self)") auto
      have "length (subarrays (true self)) \<le> length (subarrays (pred self))"
        using subarrays_props(1) [OF st] subarrays_props(1) [OF sp] le st sp by simp
      then have "?S = (\<Sum>t\<leftarrow>subarrays (true self). int (valid_positions ?nb (data t)))"
        by (rule sum_list_zip_fst)
      then have "?S = int (valid_positions ?nb (data (true self)))"
        using valid_positions_subarrays [OF st ws] by simp
      then show ?thesis using tot by simp
    qed
    then show ?thesis using tot by blast
  qed
  show ?thesis using nonneg total by blast
qed

theorem evaluate_hist_total_witness:
  "evaluate_hist \<lparr>thresh = 1 / 2, nb_classes = 2,
       pred = \<lparr>shape = [2, 1, 2], data = [0, 1, 1, 1]\<rparr>,
       true = \<lparr>shape = [2, 1, 2], data = [0, 1, 0, 5]\<rparr>\<rparr> = Inr [[1, 1], [0, 1]] \<and>
   hist_total [[1, 1], [0, 1 :: real]] = 3 \<and> valid_positions 2 [0, 1, 0, 5] = 3"
proof -
  let ?self = "\<lparr>thresh = 1 / 2, nb_classes = 2,
       pred = \<lparr>shape = [2, 1, 2], data = [0, 1, 1, 1]\<rparr>,
       true = \<lparr>shape = [2, 1, 2], data = [0, 1, 0, 5]\<rparr>\<rparr>"
  have h: "evaluate_hist ?self = Inr [[1, 1], [0, 1]]" by code_simp
  have s: "(\<Sum>(t, p)\<leftarrow>zip (subarrays (true ?self)) (subarrays (pred ?self)).
              int (valid_positions (nb_classes ?self) (data t))) \<le> 2 ^ 24"
    by code_simp
  have w: "well_shaped (true ?self) \<and> hd (shape (true ?self)) \<le> hd (shape (pred ?self))"
    by (simp add: well_shaped_def)
  have v: "valid_positions 2 [0, 1, 0, 5] = 3" by (simp add: valid_positions_def)
  have "hist_total [[1, 1], [0, 1 :: real]] = real (valid_positions 2 [0, 1, 0, 5])"
    using evaluate_hist_total [OF h] s w by simp
  then show ?thesis using h v by simp
qed

lemma count_list_replicate: "count_list (replicate n x) y = (if x = y then n else 0)"
  by (induction n) auto

lemma bincount_hist_one_class:
  "bincount_hist 2 (replicate N 0) (replicate N 0) = Inr [[int N, 0], [0, 0]]"
proof -
  let ?idx = "replicate N (0::int)"
  have idx: "map (\<lambda>(t, p). int 2 * t + p)
               (filter (\<lambda>(t, p). 0 \<le> t \<and> t < int 2) (zip (replicate N 0) (replicate N 0)))
             = ?idx"
    by simp
  have "\<forall>x \<in> set ?idx. x < int (2 ^ 2)" by simp
  then have m: "max (2 ^ 2) (nat (fold max (map (\<lambda>x. x + 1) ?idx) 0)) = 2 ^ 2"
    by (rule bins_exact)
  have u: "[0..<2 ^ 2] = [0, 1, 2, 3]" by code_simp
  have "\<not> list_ex (\<lambda>x. x < 0) ?idx" by (simp add: list_ex_iff)
  then have "bincount ?idx (2 ^ 2)
               = Inr (map (\<lambda>k. int (count_list ?idx (int k))) [0..<2 ^ 2])"
    unfolding bincount_def m by simp
  also have "map (\<lambda>k. int (count_list ?idx (int k))) [0..<2 ^ 2] = [int N, 0, 0, 0]"
    unfolding u by (simp add: count_list_replicate)
  finally have bc: "bincount ?idx (2 ^ 2) = Inr [int N, 0, 0, 0]" .
  have v: "[0..<2] = [0, 1]" by code_simp
  have rs: "reshape2 [int N, 0, 0, 0] 2 2 = Inr [[int N, 0], [0, 0]]"
    unfolding reshape2_def v by simp
  show ?thesis
    unfolding bincount_hist_def idx bc using rs by simp
qed

lemma evaluate_hist_one_class:
  "evaluate_hist \<lparr>thresh = th, nb_classes = 2,
       pred = \<lparr>shape = [1, N], data = replicate N 0\<rparr>,
       true = \<lparr>shape = [1, N], data = replicate N 0\<rparr>\<rparr>
     = Inr [[round32 (0 + to_float32 (int N)), round32 (0 + to_float32 0)],
            [round32 (0 + to_float32 0), round32 (0 + to_float32 0)]]"
proof -
  have s: "subarrays \<lparr>shape = [1, N], data = replicate N (0::int)\<rparr>
             = [\<lparr>shape = [N], data = replicate N 0\<rparr>]"
    by (simp add: subarrays_def)
  have z: "replicate 2 (replicate 2 (0::real)) = [[0, 0], [0, 0]]"
    by (simp add: numeral_2_eq_2)
  have c: "compute_hist 2 (replicate N 0) (replicate N 0)
             = Inr [[to_float32 (int N), to_float32 0], [to_float32 0, to_float32 0]]"
    by (simp add: compute_hist_def bincount_hist_one_class)
  show ?thesis
    using s by (simp add: evaluate_hist_def z c)
qed

lemma valid_positions_replicate: "valid_positions 2 (replicate N 0) = N"
  by (simp add: valid_positions_def)

lemma to_float32_rounds: "to_float32 16777217 = 16777216"
  by code_simp

text \<open>
  C4, as the claim states it, fails. One image of 16777217 pixels, all of class 0 and
  all predicted as class 0: the count 16777217 is not a float32 number and \<open>.float()\<close>
  rounds it to 16777216, so the histogram totals one less than the number of valid
  positions.
\<close>

theorem evaluate_hist_total_rounds:
  "evaluate_hist \<lparr>thresh = 1 / 2, nb_classes = 2,
       pred = \<lparr>shape = [1, 16777217], data = replicate 16777217 0\<rparr>,
       true = \<lparr>shape = [1, 16777217], data = replicate 16777217 0\<rparr>\<rparr>
     = Inr [[16777216, 0], [0, 0]] \<and>
   hist_total [[16777216, 0], [0, 0 :: real]] = 16777216 \<and>
   valid_positions 2 (replicate 16777217 0) = 16777217"
proof -
  have i: "int 16777217 = 16777217" by simp
  have a: "round32 (0 + to_float32 16777217) = 16777216"
    unfolding to_float32_rounds by (simp only: add_0 round32_two_pow_24)
  have b: "round32 (0 + to_float32 0) = 0"
    by (simp add: to_float32_def round32_zero)
  have "evaluate_hist \<lparr>thresh = 1 / 2, nb_classes = 2,
       pred = \<lparr>shape = [1, 16777217], data = replicate 16777217 0\<rparr>,
       true = \<lparr>shape = [1, 16777217], data = replicate 16777217 0\<rparr>\<rparr>
     = Inr [[16777216, 0], [0, 0]]"
    using evaluate_hist_one_class [of "1 / 2" 16777217] unfolding i a b .
  moreover have "hist_total [[16777216, 0], [0, 0 :: real]] = 16777216"
    by (simp add: hist_total_def)
  moreover have "valid_positions 2 (replicate 16777217 0) = 16777217"
    by (rule valid_positions_replicate)
  ultimately show ?thesis by (intro conjI)
qed

lemma flat_index_range:
  assumes "0 \<le> t" "t < int nb" "0 \<le> p" "p < int nb"
  shows "0 \<le> int nb * t + p" and "int nb * t + p < int (nb ^ 2)"
proof -
  show "0 \<le> int nb * t + p" using assms(1,3) by simp
  have "t + 1 \<le> int nb" using assms(2) by simp
  then have "int nb * (t + 1) \<le> int nb * int nb"
    by (rule mult_left_mono) simp
  then have "int nb * t + int nb \<le> int nb * int nb"
    by (simp only: distrib_left mult_1_right)
  then have "int nb * t + p < int nb * int nb" using assms(4) by linarith
  then show "int nb * t + p < int (nb ^ 2)"
    by (simp only: power2_eq_square of_nat_mult)
qed

lemma flat_indices_in_range:
  assumes "\<forall>(t, p) \<in> set (zip ts ps). 0 \<le> t \<and> t < int nb \<longrightarrow> 0 \<le> p \<and> p < int nb"
    and "x \<in> set (map (\<lambda>(t, p). int nb * t + p)
                (filter (\<lambda>(t, p). 0 \<le> t \<and> t < int nb) (zip ts ps)))"
  shows "0 \<le> x \<and> x < int (nb ^ 2)"
proof -
  from assms(2) obtain t p where tp: "(t, p) \<in> set (zip ts ps)" "0 \<le> t" "t < int nb"
    and x: "x = int nb * t + p"
    by auto
  from assms(1) tp have p: "0 \<le> p" "p < int nb" by auto
  show ?thesis
    unfolding x using flat_index_range [OF tp(2,3) p] by simp
qed

lemma bincount_hist_in_range:
  assumes "length ps = length ts"
    and "\<forall>(t, p) \<in> set (zip ts ps). 0 \<le> t \<and> t < int nb \<longrightarrow> 0 \<le> p \<and> p < int nb"
  shows "\<exists>h. bincount_hist nb ts ps = Inr h"
proof -
  define idx where "idx = map (\<lambda>(t, p). int nb * t + p)
                (filter (\<lambda>(t, p). 0 \<le> t \<and> t < int nb) (zip ts ps))"
  have rng: "0 \<le> x \<and> x < int (nb ^ 2)" if "x \<in> set idx" for x
    using flat_indices_in_range [OF assms(2)] that unfolding idx_def by blast
  define cs where "cs = map (\<lambda>k. int (count_list idx (int k))) [0..<nb ^ 2]"
  have "\<forall>x \<in> set idx. x < int (nb ^ 2)" using rng by blast
  then have m: "max (nb ^ 2) (nat (fold max (map (\<lambda>x. x + 1) idx) 0)) = nb ^ 2"
    by (rule bins_exact)
  have nn: "\<forall>x \<in> set idx. 0 \<le> x" using rng by blast
  have bc: "bincount idx (nb ^ 2) = Inr cs"
    unfolding bincount_Inr cs_def m using nn by simp
  have "length cs = nb * nb" by (simp add: power2_eq_square cs_def)
  then have "reshape2 cs nb nb = Inr (map (\<lambda>i. take nb (drop (i * nb) cs)) [0..<nb])"
    by (simp add: reshape2_def)
  then show ?thesis
    unfolding bincount_hist_Inr idx_def [symmetric] using assms(1) bc by blast
qed

lemma bincount_hist_overflow:
  assumes "length ps = length ts"
    and "(t, p) \<in> set (zip ts ps)" "0 \<le> t" "t < int nb" "int (nb ^ 2) \<le> int nb * t + p"
  shows "bincount_hist nb ts ps = Inl RuntimeError"
proof -
  define idx where "idx = map (\<lambda>(t, p). int nb * t + p)
                (filter (\<lambda>(t, p). 0 \<le> t \<and> t < int nb) (zip ts ps))"
  have "(t, p) \<in> set (filter (\<lambda>(t, p). 0 \<le> t \<and> t < int nb) (zip ts ps))"
    using assms(2-4) by simp
  then have "(\<lambda>(t, p). int nb * t + p) (t, p) \<in> set idx"
    unfolding idx_def set_map by (rule imageI)
  then have x: "int nb * t + p \<in> set idx" by simp
  have ch: "bincount_hist nb ts ps =
      (case bincount idx (nb ^ 2) of Inl e \<Rightarrow> Inl e | Inr hist \<Rightarrow> reshape2 hist nb nb)"
    using assms(1) by (simp add: bincount_hist_def idx_def)
  show ?thesis
  proof (cases "bincount idx (nb ^ 2)")
    case (Inl e)
    then have "e = RuntimeError" by (simp add: bincount_def split: if_splits)
    then show ?thesis using Inl ch by simp
  next
    case (Inr cs)
    then have "length cs = max (nb ^ 2) (nat (fold max (map (\<lambda>x. x + 1) idx) 0))"
      by (simp add: bincount_Inr)
    moreover have "int nb * t + p
        < int (max (nb ^ 2) (nat (fold max (map (\<lambda>x. x + 1) idx) 0)))"
      by (rule bins_covers [OF x])
    ultimately have "int (nb ^ 2) < int (length cs)" using assms(5) by linarith
    then have "nb ^ 2 < length cs" by (simp only: of_nat_less_iff)
    then have "length cs \<noteq> nb * nb" by (simp add: power2_eq_square)
    then have "reshape2 cs nb nb = Inl RuntimeError"
      by (simp add: reshape2_def)
    then show ?thesis using Inr ch by simp
  qed
qed

text \<open>
  C10. \<open>compute_hist\<close> returns a histogram whenever every predicted value at a
  position with an in-range true value is itself in range. Without that it need not:
  a predicted value that takes the flat index \<open>nb_classes * t + p\<close> to
  \<open>nb_classes ^ 2\<close> or beyond makes the count vector longer than
  \<open>nb_classes ^ 2\<close>, and the reshape fails instead of the position being left out;
  so it is for \<open>nb_classes = 2\<close>, \<open>t = 1\<close>, \<open>p = 2\<close>.
\<close>

theorem compute_hist_needs_range:
  "(length ps = length ts \<and>
      (\<forall>(t, p) \<in> set (zip ts ps). 0 \<le> t \<and> t < int nb \<longrightarrow> 0 \<le> p \<and> p < int nb)
      \<longrightarrow> (\<exists>h. compute_hist nb ts ps = Inr h)) \<and>
   (length ps = length ts \<and>
      (\<exists>(t, p) \<in> set (zip ts ps). 0 \<le> t \<and> t < int nb \<and> int (nb ^ 2) \<le> int nb * t + p)
      \<longrightarrow> compute_hist nb ts ps = Inl RuntimeError) \<and>
   (2 :: int) ^ 2 \<le> 2 * 1 + 2 \<and>
   bincount [2 * 1 + 2] (2 ^ 2) = Inr [0, 0, 0, 0, 1] \<and>
   reshape2 [0, 0, 0, 0, 1 :: int] 2 2 = Inl RuntimeError \<and>
   compute_hist 2 [1] [2] = Inl RuntimeError"
proof (intro conjI impI)
  assume "length ps = length ts \<and>
      (\<forall>(t, p) \<in> set (zip ts ps). 0 \<le> t \<and> t < int nb \<longrightarrow> 0 \<le> p \<and> p < int nb)"
  then show "\<exists>h. compute_hist nb ts ps = Inr h"
    using bincount_hist_in_range [of ps ts nb] by (auto simp: compute_hist_def)
next
  assume a: "length ps = length ts \<and>
      (\<exists>(t, p) \<in> set (zip ts ps). 0 \<le> t \<and> t < int nb \<and> int (nb ^ 2) \<le> int nb * t + p)"
  then obtain t p where "(t, p) \<in> set (zip ts ps)" "0 \<le> t" "t < int nb"
    "int (nb ^ 2) \<le> int nb * t + p"
    by blast
  then show "compute_hist nb ts ps = Inl RuntimeError"
    using bincount_hist_overflow [of ps ts t p nb] a by (simp add: compute_hist_def)
next
  show "(2 :: int) ^ 2 \<le> 2 * 1 + 2" by simp
  show "bincount [2 * 1 + 2] (2 ^ 2) = Inr [0, 0, 0, 0, 1]" by code_simp
  show "reshape2 [0, 0, 0, 0, 1 :: int] 2 2 = Inl RuntimeError" by code_simp
  show "compute_hist 2 [1] [2] = Inl RuntimeError" by code_simp
qed

theorem compute_hist_needs_range_witness:
  "compute_hist 2 [0, 1, 5] [1, 0, 7] = Inr [[0, 1], [1, 0]] \<and>
   compute_hist 2 [0, 1] [1, 3] = Inl RuntimeError"
proof -
  have a: "length [1, 0, 7 :: int] = length [0, 1, 5 :: int] \<and>
      (\<forall>(t, p) \<in> set (zip [0, 1, 5] [1, 0, 7 :: int]).
          0 \<le> t \<and> t < int 2 \<longrightarrow> 0 \<le> p \<and> p < int 2)"
    by simp
  have b: "length [1, 3 :: int] = length [0, 1 :: int] \<and>
      (\<exists>(t, p) \<in> set (zip [0, 1] [1, 3 :: int]).
          0 \<le> t \<and> t < int 2 \<and> int (2 ^ 2) \<le> int 2 * t + p)"
    by simp
  have v: "compute_hist 2 [0, 1, 5] [1, 0, 7] = Inr [[0, 1], [1, 0]]" by code_simp
  have "\<exists>h. compute_hist 2 [0, 1, 5] [1, 0, 7] = Inr h"
    using compute_hist_needs_range [of "[1, 0, 7]" "[0, 1, 5]" 2] a by blast
  moreover have "compute_hist 2 [0, 1] [1, 3] = Inl RuntimeError"
    using compute_hist_needs_range [of "[1, 3]" "[0, 1]" 2] b by blast
  ultimately show ?thesis using v by simp
qed

section \<open>The constructor: what it stores\<close>

lemma subarray_data:
  assumes "shape a = n # ds" "well_shaped a" "x \<in> set (subarrays a)"
  shows "length (data x) = prod_list ds" and "set (data x) \<subseteq> set (data a)"
proof -
  let ?sz = "prod_list ds"
  from assms(1,3) obtain i where i: "i < n" and x: "data x = take ?sz (drop (i * ?sz) (data a))"
    by (auto simp: subarrays_def Let_def)
  have len: "length (data a) = n * ?sz" using assms(1,2) by (simp add: well_shaped_def)
  have "Suc i * ?sz \<le> n * ?sz" using i by (simp only: mult_le_mono1 Suc_leI)
  then have "?sz \<le> length (data a) - i * ?sz" using len by simp
  then show "length (data x) = prod_list ds" by (simp add: x)
  show "set (data x) \<subseteq> set (data a)"
    unfolding x by (meson order_trans set_take_subset set_drop_subset)
qed

lemma index_map_nonneg:
  assumes "length xs = m * c" "\<forall>x \<in> set xs. 0 \<le> x" "v \<in> set (index_map m c xs)"
  shows "0 \<le> v"
proof -
  from assms(3) obtain q where q: "q < m" and v: "v = (\<Sum>ch\<leftarrow>[0..<c]. xs ! (q * c + ch) * real ch)"
    by (auto simp: index_map_def)
  have "0 \<le> xs ! (q * c + ch) * real ch" if "ch < c" for ch
  proof -
    have "q * c + ch < Suc q * c" using that by simp
    also have "\<dots> \<le> m * c" using q by (simp only: mult_le_mono1 Suc_leI)
    finally have "xs ! (q * c + ch) \<in> set xs" using assms(1) by simp
    then show ?thesis using assms(2) by simp
  qed
  then show ?thesis unfolding v by (intro sum_list_nonneg) auto
qed

lemma length_index_map: "length (index_map m c xs) = m"
  by (simp add: index_map_def)

lemma long_clip_range:
  assumes "0 \<le> v" "0 < c"
  shows "0 \<le> long (if real c - 1 < v then 0 else v)"
    and "long (if real c - 1 < v then 0 else v) < int c"
proof -
  let ?u = "if real c - 1 < v then 0 else v"
  have u: "0 \<le> ?u" "?u \<le> real c - 1" using assms by auto
  then have l: "long ?u = \<lfloor>?u\<rfloor>" by (simp only: long_def if_True)
  show "0 \<le> long ?u" unfolding l using u(1) by simp
  have "?u < real c" using u(2) by linarith
  then have "\<lfloor>?u\<rfloor> < int c" by (simp add: floor_less_iff)
  then show "long ?u < int c" unfolding l .
qed

lemma IoU_init_multi:
  assumes p: "well_shaped pred0" "shape pred0 = [n, c, h, w]" "1 < c" "0 < n"
    and e: "0 < h" "0 < w"
    and t: "well_shaped true0" "shape true0 = n # ds"
    and a: "well_shaped (F_softmax pred0)" "shape (F_softmax pred0) = shape pred0"
    and p1: "p1 = (if act then F_softmax pred0 else pred0)"
    and p2: "p2 = \<lparr>shape = [n, h, w, c],
                     data = map (\<lambda>v. if round32 th < v then 1 else 0)
                              (tabulate4 n h w c (\<lambda>i y x k. item4 p1 i k y x))\<rparr>"
  shows "IoU_init F_softmax torch_sigmoid true0 pred0 act th =
           Inr \<lparr>thresh = th, nb_classes = c,
                pred = map_data long
                  \<lparr>shape = [n, h, w],
                   data = concat (map (\<lambda>l. map (\<lambda>v. if real c - 1 < v then 0 else v)
                                              (index_map (h * w) c (data l)))
                                   (subarrays p2))\<rparr>,
                true = map_data long true0\<rparr>"
proof -
  have w1: "well_shaped p1" and s1: "shape p1 = [n, c, h, w]"
    using p a by (simp_all add: p1)
  have c0: "0 < c" using p(3) by simp
  have th: "IoU_threshold p1 th = Inr p2"
    unfolding p2 by (rule IoU_threshold_4d [OF w1 s1 c0 e])
  have s2: "shape p2 = [n, h, w, c]" by (simp add: p2)
  have c1: "c \<noteq> 1" using p(3) by simp
  have sq: "squeeze_channels true0 p2 True =
           Inr (true0,
                \<lparr>shape = [n, h, w],
                 data = concat (map (\<lambda>l. map (\<lambda>v. if real c - 1 < v then 0 else v)
                                            (index_map (h * w) c (data l)))
                                 (subarrays p2))\<rparr>)"
    by (rule squeeze_channels_clip [OF s2 c1 t(2) t(1) p(4)])
  have br: "(if act then if 1 < c then F_softmax pred0 else torch_sigmoid pred0 else pred0) = p1"
    using p(3) by (simp add: p1)
  have cond: "ndim p2 = 4 \<and> 1 < last (shape p2)"
    using p(3) by (simp add: ndim_def s2)
  have lt: "\<not> length (shape pred0) < 2" by (simp add: p(2))
  have nb: "shape pred0 ! 1 = c" by (simp add: p(2))
  have ne: "(if c = 1 then c + 1 else c) = c" using c1 by simp
  show ?thesis
    unfolding IoU_init_def ndim_def [of pred0] Let_def nb
    by (simp only: lt if_False br th sum.case cond sq ne) simp
qed

text \<open>
  C1, as the code has it. Take a construction input whose predictions have the shape
  (batch, C, height, width) with more than one channel and no empty batch, height or
  width axis, and whose ground truth has as many images as the predictions. The
  thresholded predictions then have more than one trailing channel, the constructor
  calls \<open>squeeze_channels(true, pred, clip=True)\<close>, and it returns: the stored
  \<open>pred\<close> is a class-index map of shape (batch, height, width) with integer entries
  from 0 to \<open>C - 1\<close>, and the stored \<open>true\<close> is the ground truth as it was given,
  converted to integers: the normaliser hands its first argument back unchanged.
\<close>

theorem IoU_init_class_index_pred:
  assumes p: "well_shaped pred0" "shape pred0 = [n, c, h, w]" "1 < c" "0 < n"
    and e: "0 < h" "0 < w"
    and t: "well_shaped true0" "shape true0 = n # ds"
    and a: "well_shaped (F_softmax pred0)" "shape (F_softmax pred0) = shape pred0"
  shows "\<exists>self. IoU_init F_softmax torch_sigmoid true0 pred0 act th = Inr self \<and>
           nb_classes self = c \<and>
           shape (pred self) = [n, h, w] \<and> well_shaped (pred self) \<and>
           (\<forall>v \<in> set (data (pred self)). 0 \<le> v \<and> v < int c) \<and>
           true self = map_data long true0"
proof -
  define p1 :: "real ndarray" where "p1 = (if act then F_softmax pred0 else pred0)"
  define p2 :: "real ndarray" where "p2 = \<lparr>shape = [n, h, w, c],
                     data = map (\<lambda>v. if round32 th < v then 1 else 0)
                              (tabulate4 n h w c (\<lambda>i y x k. item4 p1 i k y x))\<rparr>"
  define L :: "real list" where "L = concat (map (\<lambda>l. map (\<lambda>v. if real c - 1 < v then 0 else v)
                                              (index_map (h * w) c (data l)))
                                   (subarrays p2))"
  define self where "self = \<lparr>thresh = th, nb_classes = c,
                pred = map_data long \<lparr>shape = [n, h, w], data = L\<rparr>,
                true = map_data long true0\<rparr>"
  have init: "IoU_init F_softmax torch_sigmoid true0 pred0 act th = Inr self"
    unfolding self_def L_def
    by (rule IoU_init_multi [where F_softmax = F_softmax and ?pred0.0 = pred0, OF p e t a p1_def p2_def])
  have s2: "shape p2 = [n, h, w, c]" by (simp add: p2_def)
  have w2: "well_shaped p2" by (simp add: p2_def well_shaped_def length_tabulate4)
  have nn2: "\<forall>x \<in> set (data p2). 0 \<le> x" by (auto simp: p2_def)
  have sub: "length (data l) = (h * w) * c \<and> (\<forall>x \<in> set (data l). 0 \<le> x)"
    if "l \<in> set (subarrays p2)" for l
    using subarray_data [OF s2 w2 that] nn2 by (auto simp: mult.assoc)
  have "length L = (\<Sum>l\<leftarrow>subarrays p2. h * w)"
    unfolding L_def by (simp add: length_concat comp_def length_index_map)
  also have "\<dots> = n * (h * w)"
    using subarrays_props(1) [OF s2] by (simp add: sum_list_triv)
  finally have lenL: "length L = n * (h * w)" .
  have rng: "0 \<le> long v \<and> long v < int c" if "v \<in> set L" for v
  proof -
    from that obtain l u where l: "l \<in> set (subarrays p2)"
      and u: "u \<in> set (index_map (h * w) c (data l))"
      and v: "v = (if real c - 1 < u then 0 else u)"
      unfolding L_def by auto
    have "0 \<le> u" using index_map_nonneg [OF _ _ u] sub [OF l] by blast
    moreover have "0 < c" using p(3) by simp
    ultimately show ?thesis unfolding v using long_clip_range by blast
  qed
  have "nb_classes self = c" by (simp add: self_def)
  moreover have "shape (pred self) = [n, h, w]" by (simp add: self_def map_data_def)
  moreover have "well_shaped (pred self)"
    by (simp add: self_def map_data_def well_shaped_def lenL)
  moreover have "\<forall>v \<in> set (data (pred self)). 0 \<le> v \<and> v < int c"
    using rng by (auto simp: self_def map_data_def)
  moreover have "true self = map_data long true0" by (simp add: self_def)
  ultimately show ?thesis using init by blast
qed

theorem IoU_init_class_index_pred_witness:
  "IoU_init id id \<lparr>shape = [1, 1, 2], data = [1, 0]\<rparr>
       \<lparr>shape = [1, 2, 1, 2], data = [1 / 10, 9 / 10, 9 / 10, 1 / 10]\<rparr> False (1 / 2)
     = Inr \<lparr>thresh = 1 / 2, nb_classes = 2,
            pred = \<lparr>shape = [1, 1, 2], data = [1, 0]\<rparr>,
            true = \<lparr>shape = [1, 1, 2], data = [1, 0]\<rparr>\<rparr>"
proof -
  let ?t = "\<lparr>shape = [1, 1, 2], data = [1, 0 :: real]\<rparr>"
  let ?p = "\<lparr>shape = [1, 2, 1, 2], data = [1 / 10, 9 / 10, 9 / 10, 1 / 10 :: real]\<rparr>"
  have h1: "well_shaped ?p" by (simp add: well_shaped_def)
  have h2: "shape ?p = [1, 2, 1, 2]" by simp
  have h3: "(1::nat) < 2" by simp
  have h4: "(0::nat) < 1" by simp
  have e1: "(0::nat) < 1" by simp
  have e2: "(0::nat) < 2" by simp
  have h5: "well_shaped ?t" by (simp add: well_shaped_def)
  have h6: "shape ?t = 1 # [1, 2]" by simp
  have h7: "well_shaped (id ?p)" using h1 by simp
  have h8: "shape (id ?p) = shape ?p" by simp
  have v: "IoU_init id id ?t ?p False (1 / 2)
     = Inr \<lparr>thresh = 1 / 2, nb_classes = 2,
            pred = \<lparr>shape = [1, 1, 2], data = [1, 0]\<rparr>,
            true = \<lparr>shape = [1, 1, 2], data = [1, 0]\<rparr>\<rparr>"
    by code_simp
  from IoU_init_class_index_pred [where F_softmax = id and ?pred0.0 = ?p, OF h1 h2 h3 h4 e1 e2 h5 h6 h7 h8,
      of id False "1 / 2"]
  obtain self where "IoU_init id id ?t ?p False (1 / 2) = Inr self" by blast
  then show ?thesis using v by simp
qed

text \<open>
  C1, as the claim states it, fails for the stored \<open>true\<close>: a one-hot ground truth of
  shape (1, 2, 1, 1) is stored with that shape and its two entries, not as a
  (batch, height, width) map of class indices.
\<close>

theorem IoU_init_true_not_squeezed:
  "IoU_init id id \<lparr>shape = [1, 2, 1, 1], data = [1, 0]\<rparr>
       \<lparr>shape = [1, 2, 1, 1], data = [9 / 10, 1 / 10]\<rparr> False (1 / 2)
     = Inr \<lparr>thresh = 1 / 2, nb_classes = 2,
            pred = \<lparr>shape = [1, 1, 1], data = [0]\<rparr>,
            true = \<lparr>shape = [1, 2, 1, 1], data = [1, 0]\<rparr>\<rparr>"
  by code_simp

section \<open>The mean over the classes: a class that is absent\<close>

lemma eps32_value: "eps32 = 14411519 / 2 ^ 57"
  by code_simp

lemma eps32_bounds: "0 < eps32" "eps32 < 1 / 2 ^ 24"
  by (simp_all add: eps32_value)

lemma round32_eps32: "round32 eps32 = eps32"
  unfolding eps32_value by code_simp

lemma round32_two: "round32 2 = 2"
  using round32_int [of 2] by simp

lemma round32_four: "round32 4 = 4"
  using round32_int [of 4] by simp

lemma round32_two_eps32: "round32 (2 + eps32) = 2"
  using round32_absorb [of 2 eps32] eps32_bounds by simp

text \<open>
  The Jaccard vector of two classes of which one has two pixels, all predicted
  right, and the other has none: the entry of the absent class is
  \<open>0 / (0 + 1e-10) = 0\<close>.
\<close>

lemma jaccard_class_0_only: "jaccard [[2, 0], [0, 0]] = [Finite 1, Finite 0]"
  using eps32_bounds(1)
  by (simp add: jaccard_def torch_sum_def f32_div_def round32_zero round32_one round32_two
      round32_four round32_two_eps32 round32_eps32)

lemma jaccard_class_1_only: "jaccard [[0, 0], [0, 2]] = [Finite 0, Finite 1]"
  using eps32_bounds(1)
  by (simp add: jaccard_def torch_sum_def f32_div_def round32_zero round32_one round32_two
      round32_four round32_two_eps32 round32_eps32)

lemma torch_mean_one_zero:
  "torch_mean [Finite 1, Finite 0] = Finite (1 / 2)"
  "torch_mean [Finite 0, Finite 1] = Finite (1 / 2)"
  by (simp_all add: torch_mean_def f32_div_def round32_zero round32_one round32_half)

text \<open>
  C3: the code does not do what the claim says. With two classes and a batch of two
  pixels that are class 0 in both maps, class 1 appears nowhere. Its entry of the
  Jaccard vector is \<open>0 / (0 + 1e-10)\<close>, which is 0 and not NaN; the filter
  \<open>jcd[jcd == jcd]\<close> removes nothing, the entry is averaged in, and \<open>evaluate\<close>
  returns 0.5.
\<close>

theorem absent_class_counts_as_zero:
  "evaluate_hist \<lparr>thresh = 1 / 2, nb_classes = 2,
       pred = \<lparr>shape = [1, 1, 2], data = [0, 0]\<rparr>,
       true = \<lparr>shape = [1, 1, 2], data = [0, 0]\<rparr>\<rparr> = Inr [[2, 0], [0, 0]] \<and>
   jaccard [[2, 0], [0, 0]] = [Finite 1, Finite 0] \<and>
   filter (\<lambda>v. v \<noteq> NaN) (jaccard [[2, 0], [0, 0]]) = [Finite 1, Finite 0] \<and>
   evaluate \<lparr>thresh = 1 / 2, nb_classes = 2,
       pred = \<lparr>shape = [1, 1, 2], data = [0, 0]\<rparr>,
       true = \<lparr>shape = [1, 1, 2], data = [0, 0]\<rparr>\<rparr> = Inr (Finite (1 / 2))"
proof -
  have h: "evaluate_hist \<lparr>thresh = 1 / 2, nb_classes = 2,
       pred = \<lparr>shape = [1, 1, 2], data = [0, 0]\<rparr>,
       true = \<lparr>shape = [1, 1, 2], data = [0, 0]\<rparr>\<rparr> = Inr [[2, 0], [0, 0]]"
    by code_simp
  show ?thesis
    using h by (simp add: evaluate_def jaccard_class_0_only torch_mean_one_zero)
qed

text \<open>
  C2: the code does not do what the claim says. With two classes and two pixels that
  are class 1 in both maps, the prediction is perfect, yet class 0, which is absent,
  has the entry 0 in the Jaccard vector and \<open>evaluate\<close> returns 0.5, not 1.
\<close>

theorem perfect_prediction_absent_class:
  "pred \<lparr>thresh = 1 / 2, nb_classes = 2,
       pred = \<lparr>shape = [1, 2, 1], data = [1, 1]\<rparr>,
       true = \<lparr>shape = [1, 2, 1], data = [1, 1]\<rparr>\<rparr>
     = true \<lparr>thresh = 1 / 2, nb_classes = 2,
       pred = \<lparr>shape = [1, 2, 1], data = [1, 1]\<rparr>,
       true = \<lparr>shape = [1, 2, 1], data = [1, 1]\<rparr>\<rparr> \<and>
   evaluate_hist \<lparr>thresh = 1 / 2, nb_classes = 2,
       pred = \<lparr>shape = [1, 2, 1], data = [1, 1]\<rparr>,
       true = \<lparr>shape = [1, 2, 1], data = [1, 1]\<rparr>\<rparr> = Inr [[0, 0], [0, 2]] \<and>
   jaccard [[0, 0], [0, 2]] = [Finite 0, Finite 1] \<and>
   evaluate \<lparr>thresh = 1 / 2, nb_classes = 2,
       pred = \<lparr>shape = [1, 2, 1], data = [1, 1]\<rparr>,
       true = \<lparr>shape = [1, 2, 1], data = [1, 1]\<rparr>\<rparr> = Inr (Finite (1 / 2))"
proof -
  have h: "evaluate_hist \<lparr>thresh = 1 / 2, nb_classes = 2,
       pred = \<lparr>shape = [1, 2, 1], data = [1, 1]\<rparr>,
       true = \<lparr>shape = [1, 2, 1], data = [1, 1]\<rparr>\<rparr> = Inr [[0, 0], [0, 2]]"
    by code_simp
  show ?thesis
    using h by (simp add: evaluate_def jaccard_class_1_only torch_mean_one_zero)
qed

end
